theory Spec2Isabelle
  imports Main "HOL-Library.Multiset" "HOL-Library.Sublist"
begin

section \<open>The webview editor service: data\<close>

text \<open>
  The development embeds \<^verbatim>\<open>webviewEditorService.ts\<close>: the class
  \<^verbatim>\<open>WebviewEditorService\<close> with its two private fields, the set of registered
  revivers and the array of inputs that wait for a reviver. The service talks to three
  collaborators (the editor service, the editor group service and the revivers that
  extensions register); every call it makes on one of them is appended to a trace, so that
  a property such as "issues exactly one display request" is a property of the trace.
\<close>

type_synonym uri = string
type_synonym group_identifier = int
type_synonym promise = nat

text \<open>\<^verbatim>\<open>WebviewInputOptions\<close>, with the six fields that the source reads.\<close>

record webview_input_options =
  enableCommandUris :: "bool option"
  enableFindWidget :: "bool option"
  enableScripts :: "bool option"
  retainContextWhenHidden :: "bool option"
  tryRestoreScrollPosition :: "bool option"
  localResourceRoots :: "uri list option"

text \<open>\<^verbatim>\<open>IEditorGroup\<close>: the service reads nothing of a group but its \<^verbatim>\<open>id\<close>.\<close>

record editor_group =
  group_id :: group_identifier

text \<open>The \<^verbatim>\<open>group\<close> of \<^verbatim>\<open>ICreateWebViewShowOptions\<close>:
  \<^verbatim>\<open>IEditorGroup | GroupIdentifier | ACTIVE_GROUP_TYPE | SIDE_GROUP_TYPE\<close>.\<close>

datatype show_group = Group editor_group | GroupId group_identifier | ACTIVE_GROUP | SIDE_GROUP

record create_show_options =
  showGroup :: show_group
  showPreserveFocus :: bool

text \<open>
  \<^verbatim>\<open>WebviewEditorInput\<close> (the panel). The class lives in another file; the record holds
  the constructor arguments the service passes, the two attributes the service reads or
  writes afterwards (\<^verbatim>\<open>group\<close>, \<^verbatim>\<open>iconPath\<close>) and \<open>ref\<close>, the identity of the
  object (its reference). The persisted \<^verbatim>\<open>state: any\<close> is opaque text; the event sink is
  handed through to the constructor and plays no part here.
\<close>

record webview_editor_input =
  ref :: nat
  viewType :: string
  input_id :: "int option"
  title :: string
  options :: webview_input_options
  persisted :: string
  extensionLocation :: "uri option"
  iconPath :: "(uri \<times> uri) option"
  group :: "group_identifier option"

text \<open>
  \<^verbatim>\<open>WebviewReviver\<close>: an object with an identity (\<open>rid\<close>, by which the
  \<^verbatim>\<open>Set\<close> compares it) and the method \<^verbatim>\<open>canRevive(webview): boolean\<close>;
  \<open>reviver_canRevive\<close> is what the method answers when the service asks it once about
  an input, as the loops of \<^verbatim>\<open>canRevive\<close> and \<^verbatim>\<open>tryRevive\<close> do.
  \<^verbatim>\<open>registerReviver\<close> asks twice about each input, and an object need not answer the
  same twice: there the answers are given invocation by invocation (see
  \<open>registerReviver_answered\<close>). The second method, \<^verbatim>\<open>reviveWebview\<close>, returns a
  promise that the extension settles later: a call of it is an entry of the trace carrying
  the promise it returned.
\<close>

record webview_reviver =
  rid :: nat
  reviver_canRevive :: "webview_editor_input \<Rightarrow> bool"

text \<open>An element of \<^verbatim>\<open>_awaitingRevival\<close>: the input and the \<^verbatim>\<open>resolve\<close> function
  of the promise its caller waits on, named by that promise.\<close>

record awaiting =
  input :: webview_editor_input
  resolve :: promise

text \<open>The options literal of \<^verbatim>\<open>openEditor\<close> and \<^verbatim>\<open>moveEditor\<close>:
  \<^verbatim>\<open>{ pinned: true, preserveFocus }\<close> or \<^verbatim>\<open>{ preserveFocus }\<close>.\<close>

record editor_options =
  pinned :: "bool option"
  preserveFocus :: bool

datatype collaborator_call =
    OpenEditor webview_editor_input editor_options "show_group option"
  | GetGroup "group_identifier option"
  | MoveEditor editor_group webview_editor_input editor_group editor_options
  | CanReviveCall nat webview_editor_input
  | ReviveWebviewCall nat webview_editor_input promise

text \<open>
  What runs when a promise settles. \<open>ResolveAwaiting s\<close> is the
  \<^verbatim>\<open>.then(() => input.resolve(undefined))\<close> of \<^verbatim>\<open>registerReviver\<close>;
  \<open>ReturnFromCallback c\<close> is the rest of the deferred-population callback after its
  \<^verbatim>\<open>await\<close> (or after the promise it returned), which settles the callback's own
  promise \<open>c\<close>.
\<close>

datatype reaction = ResolveAwaiting promise | ReturnFromCallback promise

record service =
  revivers :: "webview_reviver list"
  awaitingRevival :: "awaiting list"
  getGroup :: "group_identifier option \<Rightarrow> editor_group option"
  calls :: "collaborator_call list"
  next_ref :: nat
  next_promise :: nat
  reactions :: "(promise \<times> reaction) list"
  resumptions :: "(webview_editor_input \<times> promise) list"
  fulfilled :: "promise list"
  rejected :: "promise list"
  unresolved :: "webview_editor_input list"

text \<open>
  \<open>revivers\<close> is \<^verbatim>\<open>_revivers\<close>, a \<^verbatim>\<open>Set\<close> in insertion order;
  \<open>awaitingRevival\<close> is \<^verbatim>\<open>_awaitingRevival\<close>. \<open>getGroup\<close> is the editor group
  service's lookup, whatever it answers (also for \<^verbatim>\<open>undefined\<close>). The other fields
  are the world around the two: the trace, the allocation counters of objects and promises,
  the reactions registered on promises that have not run, the callbacks suspended at their
  \<^verbatim>\<open>await\<close> of a \<^verbatim>\<open>tryRevive\<close> that found nothing, the settled promises, and the
  revived inputs whose deferred-population callback has not been invoked.
\<close>

section \<open>The operations of the service\<close>

definition record_call :: "collaborator_call \<Rightarrow> service \<Rightarrow> service" where
  "record_call c st = st\<lparr>calls := calls st @ [c]\<rparr>"

text \<open>\<^verbatim>\<open>_instantiationService.createInstance\<close>: a new object.\<close>

definition createInstance ::
  "string \<Rightarrow> int option \<Rightarrow> string \<Rightarrow> webview_input_options \<Rightarrow> string \<Rightarrow> uri option \<Rightarrow>
   service \<Rightarrow> webview_editor_input \<times> service" where
  "createInstance vt i t opts s ext st =
     (\<lparr>ref = next_ref st, viewType = vt, input_id = i, title = t, options = opts,
       persisted = s, extensionLocation = ext, iconPath = None, group = None\<rparr>,
      st\<lparr>next_ref := Suc (next_ref st)\<rparr>)"

text \<open>\<^verbatim>\<open>_editorService.openEditor\<close>; the promise it returns is dropped by every caller.\<close>

definition openEditor ::
  "webview_editor_input \<Rightarrow> editor_options \<Rightarrow> show_group option \<Rightarrow> service \<Rightarrow> service" where
  "openEditor webview opts g st = record_call (OpenEditor webview opts g) st"

definition createWebview ::
  "string \<Rightarrow> string \<Rightarrow> create_show_options \<Rightarrow> webview_input_options \<Rightarrow> uri option \<Rightarrow>
   service \<Rightarrow> webview_editor_input \<times> service" where
  "createWebview vt t showOptions opts ext st =
     (let (webviewInput, st1) = createInstance vt None t opts ''{}'' ext st;
          st2 = openEditor webviewInput
                  \<lparr>pinned = Some True, preserveFocus = showPreserveFocus showOptions\<rparr>
                  (Some (showGroup showOptions)) st1
      in (webviewInput, st2))"

definition revealWebview ::
  "webview_editor_input \<Rightarrow> editor_group \<Rightarrow> bool \<Rightarrow> service \<Rightarrow> service" where
  "revealWebview webview grp pf st =
     (if group webview = Some (group_id grp)
      then openEditor webview \<lparr>pinned = None, preserveFocus = pf\<rparr>
             (map_option GroupId (group webview)) st
      else
        (let st1 = record_call (GetGroup (group webview)) st in
         case getGroup st (group webview) of
           Some groupView \<Rightarrow>
             record_call (MoveEditor groupView webview grp \<lparr>pinned = None, preserveFocus = pf\<rparr>) st1
         | None \<Rightarrow> st1))"

text \<open>
  \<^verbatim>\<open>reviveWebview\<close> builds the input with the deferred-population callback (the
  function \<open>revive_callback\<close> below: the closure captures nothing but the service) and
  sets the icon afterwards.
\<close>

definition reviveWebview ::
  "string \<Rightarrow> int \<Rightarrow> string \<Rightarrow> (uri \<times> uri) option \<Rightarrow> string \<Rightarrow> webview_input_options \<Rightarrow>
   uri option \<Rightarrow> service \<Rightarrow> webview_editor_input \<times> service" where
  "reviveWebview vt i t icon s opts ext st =
     (let (webviewInput, st1) = createInstance vt (Some i) t opts s ext st
      in (webviewInput\<lparr>iconPath := icon\<rparr>, st1))"

text \<open>
  \<^verbatim>\<open>canRevive\<close>: the loop over \<^verbatim>\<open>values(this._revivers)\<close>, with its early return.
\<close>

fun canRevive_loop ::
  "webview_reviver list \<Rightarrow> webview_editor_input \<Rightarrow> service \<Rightarrow> bool \<times> service" where
  "canRevive_loop [] webview st = (False, st)"
| "canRevive_loop (reviver # rest) webview st =
     (let st1 = record_call (CanReviveCall (rid reviver) webview) st in
      if reviver_canRevive reviver webview then (True, st1)
      else canRevive_loop rest webview st1)"

definition canRevive :: "webview_editor_input \<Rightarrow> service \<Rightarrow> bool \<times> service" where
  "canRevive webview st = canRevive_loop (revivers st) webview st"

text \<open>
  \<^verbatim>\<open>tryRevive\<close> is \<^verbatim>\<open>async\<close>: it runs to its first \<^verbatim>\<open>await\<close>. Either it has
  called \<^verbatim>\<open>reviveWebview\<close> on the first reviver that accepts the input and waits for the
  promise \<open>p\<close> of that call, to return \<^verbatim>\<open>true\<close> when \<open>p\<close> is fulfilled
  (\<open>AwaitsThenTrue p\<close>), or no reviver accepted and it returns \<^verbatim>\<open>false\<close>.
\<close>

datatype try_revive_result = AwaitsThenTrue promise | ResolvesFalse

fun tryRevive_loop ::
  "webview_reviver list \<Rightarrow> webview_editor_input \<Rightarrow> service \<Rightarrow> try_revive_result \<times> service" where
  "tryRevive_loop [] webview st = (ResolvesFalse, st)"
| "tryRevive_loop (reviver # rest) webview st =
     (let st1 = record_call (CanReviveCall (rid reviver) webview) st in
      if reviver_canRevive reviver webview
      then (AwaitsThenTrue (next_promise st1),
            (record_call (ReviveWebviewCall (rid reviver) webview (next_promise st1)) st1)
              \<lparr>next_promise := Suc (next_promise st1)\<rparr>)
      else tryRevive_loop rest webview st1)"

definition tryRevive :: "webview_editor_input \<Rightarrow> service \<Rightarrow> try_revive_result \<times> service" where
  "tryRevive webview st = tryRevive_loop (revivers st) webview st"

text \<open>
  The callback that \<^verbatim>\<open>reviveWebview\<close> hands to the input. \<open>revive_callback\<close> is the
  run up to \<^verbatim>\<open>await this.tryRevive(webview)\<close>: \<open>c\<close> is the promise of the async
  function. When \<^verbatim>\<open>tryRevive\<close> waits for a reviver, the rest of the callback runs when that
  reviver's promise settles; when it answered \<^verbatim>\<open>false\<close>, the rest of the callback
  (\<open>callback_resume\<close>: the push on the queue) is a job of its own, run after the
  \<^verbatim>\<open>await\<close>.
\<close>

definition revive_callback :: "webview_editor_input \<Rightarrow> service \<Rightarrow> promise \<times> service" where
  "revive_callback webview st =
     (let c = next_promise st;
          (didRevive, st1) = tryRevive webview (st\<lparr>next_promise := Suc c\<rparr>)
      in case didRevive of
           AwaitsThenTrue p \<Rightarrow> (c, st1\<lparr>reactions := reactions st1 @ [(p, ReturnFromCallback c)]\<rparr>)
         | ResolvesFalse \<Rightarrow> (c, st1\<lparr>resumptions := resumptions st1 @ [(webview, c)]\<rparr>))"

definition callback_resume :: "webview_editor_input \<Rightarrow> promise \<Rightarrow> service \<Rightarrow> service" where
  "callback_resume webview c st =
     (let s = next_promise st in
      st\<lparr>awaitingRevival := awaitingRevival st @ [\<lparr>input = webview, resolve = s\<rparr>],
         next_promise := Suc s,
         reactions := reactions st @ [(s, ReturnFromCallback c)]\<rparr>)"

text \<open>\<^verbatim>\<open>Set.add\<close> and \<^verbatim>\<open>Set.delete\<close>, on the insertion-ordered list.\<close>

definition set_add :: "webview_reviver \<Rightarrow> webview_reviver list \<Rightarrow> webview_reviver list" where
  "set_add r rs = (if rid r \<in> rid ` set rs then rs else rs @ [r])"

definition set_delete :: "webview_reviver \<Rightarrow> webview_reviver list \<Rightarrow> webview_reviver list" where
  "set_delete r rs = filter (\<lambda>x. rid x \<noteq> rid r) rs"

text \<open>
  \<^verbatim>\<open>Array.prototype.filter\<close> with a callback that need not be a function of its
  argument: \<open>answer k x\<close> is what the callback returns for \<open>x\<close> when it is its
  \<open>k\<close>-th invocation. \<open>registerReviver_passes\<close> is lines 161 and 162 of the source
  with every invocation of \<^verbatim>\<open>reviver.canRevive\<close> counted: the first pass makes the
  invocations \<open>0\<close> to \<open>length q - 1\<close>, the second the next \<open>length q\<close>.
\<close>

fun filter_asking :: "(nat \<Rightarrow> 'a \<Rightarrow> bool) \<Rightarrow> nat \<Rightarrow> 'a list \<Rightarrow> 'a list" where
  "filter_asking answer k [] = []"
| "filter_asking answer k (x # xs) =
     (if answer k x then x # filter_asking answer (Suc k) xs
      else filter_asking answer (Suc k) xs)"

definition registerReviver_passes ::
  "(nat \<Rightarrow> webview_editor_input \<Rightarrow> bool) \<Rightarrow> awaiting list \<Rightarrow> awaiting list \<times> awaiting list" where
  "registerReviver_passes answer q =
     (let toRevive = filter_asking (\<lambda>k x. answer k (input x)) 0 q;
          kept = filter_asking (\<lambda>k x. \<not> answer k (input x)) (length q) q
      in (toRevive, kept))"

text \<open>
  \<^verbatim>\<open>registerReviver\<close>, in its two halves. The interface gives \<^verbatim>\<open>canRevive\<close> its
  type and no more: an object may answer differently each time it is asked. In
  \<open>registerReviver_answered answer reviver\<close>, \<open>answer k w\<close> is what
  \<^verbatim>\<open>reviver.canRevive(w)\<close> returns at the \<open>k\<close>-th invocation that this call of
  \<^verbatim>\<open>registerReviver\<close> makes. \<open>registerReviver_scan\<close> is the \<^verbatim>\<open>add\<close> and the two
  \<^verbatim>\<open>filter\<close> passes, each of which asks the reviver about every queued input;
  \<open>registerReviver_dispatch\<close> is the \<^verbatim>\<open>for\<close> loop.
\<close>

definition ask_all :: "webview_reviver \<Rightarrow> awaiting list \<Rightarrow> collaborator_call list" where
  "ask_all reviver q = map (\<lambda>x. CanReviveCall (rid reviver) (input x)) q"

definition registerReviver_scan ::
  "(nat \<Rightarrow> webview_editor_input \<Rightarrow> bool) \<Rightarrow> webview_reviver \<Rightarrow> service \<Rightarrow>
   awaiting list \<times> service" where
  "registerReviver_scan answer reviver st =
     (let st1 = st\<lparr>revivers := set_add reviver (revivers st)\<rparr>;
          toRevive = filter_asking (\<lambda>k x. answer k (input x)) 0 (awaitingRevival st1);
          st2 = st1\<lparr>calls := calls st1 @ ask_all reviver (awaitingRevival st1)\<rparr>;
          st3 = st2\<lparr>awaitingRevival :=
                       filter_asking (\<lambda>k x. \<not> answer k (input x))
                         (length (awaitingRevival st2)) (awaitingRevival st2),
                     calls := calls st2 @ ask_all reviver (awaitingRevival st2)\<rparr>
      in (toRevive, st3))"

fun registerReviver_dispatch :: "webview_reviver \<Rightarrow> awaiting list \<Rightarrow> service \<Rightarrow> service" where
  "registerReviver_dispatch reviver [] st = st"
| "registerReviver_dispatch reviver (x # xs) st =
     registerReviver_dispatch reviver xs
       ((record_call (ReviveWebviewCall (rid reviver) (input x) (next_promise st)) st)
          \<lparr>next_promise := Suc (next_promise st),
           reactions := reactions st @ [(next_promise st, ResolveAwaiting (resolve x))]\<rparr>)"

text \<open>The \<^verbatim>\<open>IDisposable\<close> that \<^verbatim>\<open>registerReviver\<close> returns: a closure over the reviver.\<close>

datatype disposable = Disposable webview_reviver

definition registerReviver_answered ::
  "(nat \<Rightarrow> webview_editor_input \<Rightarrow> bool) \<Rightarrow> webview_reviver \<Rightarrow> service \<Rightarrow>
   disposable \<times> service" where
  "registerReviver_answered answer reviver st =
     (let (toRevive, st1) = registerReviver_scan answer reviver st
      in (Disposable reviver, registerReviver_dispatch reviver toRevive st1))"

text \<open>
  \<open>registerReviver reviver\<close> is \<^verbatim>\<open>registerReviver\<close> for a reviver whose
  \<^verbatim>\<open>canRevive\<close> is a function of its argument: every invocation answers as
  \<open>reviver_canRevive\<close> does.
\<close>

definition registerReviver :: "webview_reviver \<Rightarrow> service \<Rightarrow> disposable \<times> service" where
  "registerReviver reviver st =
     registerReviver_answered (\<lambda>k. reviver_canRevive reviver) reviver st"

fun dispose :: "disposable \<Rightarrow> service \<Rightarrow> service" where
  "dispose (Disposable reviver) st = st\<lparr>revivers := set_delete reviver (revivers st)\<rparr>"

section \<open>Promises\<close>

text \<open>
  A reviver's promise settles when the extension is done (\<open>settle\<close>): fulfilled, or
  rejected. The reactions registered on a settled promise then run (\<open>react\<close>). The
  \<^verbatim>\<open>then\<close> of \<^verbatim>\<open>registerReviver\<close> has no rejection handler, so after a rejection
  \<^verbatim>\<open>input.resolve\<close> is never called; a rejected \<^verbatim>\<open>await\<close> throws, and the callback's
  promise is rejected with it.
\<close>

definition settle :: "promise \<Rightarrow> bool \<Rightarrow> service \<Rightarrow> service" where
  "settle p ok st =
     (if ok then st\<lparr>fulfilled := fulfilled st @ [p]\<rparr> else st\<lparr>rejected := rejected st @ [p]\<rparr>)"

fun run_reaction :: "bool \<Rightarrow> reaction \<Rightarrow> service \<Rightarrow> service" where
  "run_reaction True (ResolveAwaiting s) st = st\<lparr>fulfilled := fulfilled st @ [s]\<rparr>"
| "run_reaction False (ResolveAwaiting s) st = st"
| "run_reaction True (ReturnFromCallback c) st = st\<lparr>fulfilled := fulfilled st @ [c]\<rparr>"
| "run_reaction False (ReturnFromCallback c) st = st\<lparr>rejected := rejected st @ [c]\<rparr>"

definition react :: "promise \<Rightarrow> service \<Rightarrow> service" where
  "react p st =
     (let rs = map snd (filter (\<lambda>pr. fst pr = p) (reactions st));
          st1 = st\<lparr>reactions := filter (\<lambda>pr. fst pr \<noteq> p) (reactions st)\<rparr>
      in fold (run_reaction (p \<in> set (fulfilled st))) rs st1)"

section \<open>What the trace says about revivals\<close>

fun revival_of :: "collaborator_call \<Rightarrow> (nat \<times> nat) option" where
  "revival_of (ReviveWebviewCall r w p) = Some (r, ref w)"
| "revival_of _ = None"

fun revival_promise_of :: "collaborator_call \<Rightarrow> promise option" where
  "revival_promise_of (ReviveWebviewCall r w p) = Some p"
| "revival_promise_of _ = None"

text \<open>\<open>revivals cs\<close>: the calls of \<^verbatim>\<open>reviveWebview\<close> in the trace, in order, each as
  the reviver's identity and the input's identity.\<close>

definition revivals :: "collaborator_call list \<Rightarrow> (nat \<times> nat) list" where
  "revivals cs = List.map_filter revival_of cs"

definition revival_promises :: "collaborator_call list \<Rightarrow> promise list" where
  "revival_promises cs = List.map_filter revival_promise_of cs"

fun asked_reviver :: "collaborator_call \<Rightarrow> nat option" where
  "asked_reviver (CanReviveCall r w) = Some r"
| "asked_reviver _ = None"

text \<open>\<open>asked cs\<close>: the revivers whose \<^verbatim>\<open>canRevive\<close> the trace consults, in order.\<close>

definition asked :: "collaborator_call list \<Rightarrow> nat list" where
  "asked cs = List.map_filter asked_reviver cs"

fun is_OpenEditor :: "collaborator_call \<Rightarrow> bool" where
  "is_OpenEditor (OpenEditor w opts g) = True"
| "is_OpenEditor _ = False"

fun is_MoveEditor :: "collaborator_call \<Rightarrow> bool" where
  "is_MoveEditor (MoveEditor v w g opts) = True"
| "is_MoveEditor _ = False"

section \<open>The service in its environment\<close>

text \<open>
  Modelled from the spec: \<^verbatim>\<open>RevivedWebviewEditorInput\<close> (\<^verbatim>\<open>./webviewEditorInput\<close>), the
  class that receives the deferred-population callback and decides when to invoke it, is
  not among the sources. The spec: "population happens out of band whenever the handle's
  content is first actually needed (deferred-invocation contract owned by the external
  panel machinery, not by this core)" and "a panel is only ever asked to revive once
  through this path". So a revived input is \<open>unresolved\<close> from its construction until
  its callback is invoked, once, with the input itself.
\<close>

definition track_unresolved :: "webview_editor_input \<times> service \<Rightarrow> service" where
  "track_unresolved r = (snd r)\<lparr>unresolved := unresolved (snd r) @ [fst r]\<rparr>"

definition resolve_input :: "webview_editor_input \<Rightarrow> service \<Rightarrow> service option" where
  "resolve_input webview st =
     (if webview \<in> set (unresolved st)
      then Some (snd (revive_callback webview (st\<lparr>unresolved := remove1 webview (unresolved st)\<rparr>)))
      else None)"

text \<open>
  What can happen to the service: a call of one of its five public methods (a call of
  \<^verbatim>\<open>registerReviver\<close> comes with the answers its reviver gives), a call of a
  disposable it returned (deleting a reviver that is not in the set changes nothing, so the
  call is allowed at any time), the invocation of a callback by its input, the resumption
  of the oldest callback suspended on a \<^verbatim>\<open>false\<close> answer, the settling of a reviver's
  promise, and the run of the reactions on a settled promise. \<open>step\<close> is \<open>None\<close>
  where the event cannot happen.
\<close>

datatype action =
    Call_createWebview string string create_show_options webview_input_options "uri option"
  | Call_revealWebview webview_editor_input editor_group bool
  | Call_reviveWebview string int string "(uri \<times> uri) option" string webview_input_options
      "uri option"
  | Invoke_callback webview_editor_input
  | Resume_callback
  | Call_registerReviver "nat \<Rightarrow> webview_editor_input \<Rightarrow> bool" webview_reviver
  | Call_dispose webview_reviver
  | Call_canRevive webview_editor_input
  | Settle promise bool
  | React promise

fun step :: "action \<Rightarrow> service \<Rightarrow> service option" where
  "step (Call_createWebview vt t so opts ext) st = Some (snd (createWebview vt t so opts ext st))"
| "step (Call_revealWebview w g pf) st = Some (revealWebview w g pf st)"
| "step (Call_reviveWebview vt i t icon s opts ext) st =
     Some (track_unresolved (reviveWebview vt i t icon s opts ext st))"
| "step (Invoke_callback w) st = resolve_input w st"
| "step Resume_callback st =
     (case resumptions st of
        [] \<Rightarrow> None
      | (w, c) # rest \<Rightarrow> Some (callback_resume w c (st\<lparr>resumptions := rest\<rparr>)))"
| "step (Call_registerReviver answer r) st = Some (snd (registerReviver_answered answer r st))"
| "step (Call_dispose r) st = Some (dispose (Disposable r) st)"
| "step (Call_canRevive w) st = Some (snd (canRevive w st))"
| "step (Settle p ok) st =
     (if p \<in> set (revival_promises (calls st)) \<and> p \<notin> set (fulfilled st) \<and> p \<notin> set (rejected st)
      then Some (settle p ok st) else None)"
| "step (React p) st =
     (if p \<in> set (fulfilled st) \<or> p \<in> set (rejected st) then Some (react p st) else None)"

fun run :: "action list \<Rightarrow> service \<Rightarrow> service option" where
  "run [] st = Some st"
| "run (a # as) st = (case step a st of None \<Rightarrow> None | Some st' \<Rightarrow> run as st')"

text \<open>
  \<open>deterministic a\<close>: if \<open>a\<close> registers a reviver, that reviver's
  \<^verbatim>\<open>canRevive\<close> answers the same for the same input at every invocation.
\<close>

fun deterministic :: "action \<Rightarrow> bool" where
  "deterministic (Call_registerReviver answer r) = (\<forall>i j w. answer i w = answer j w)"
| "deterministic a = True"

definition initial :: "(group_identifier option \<Rightarrow> editor_group option) \<Rightarrow> service" where
  "initial g =
     \<lparr>revivers = [], awaitingRevival = [], getGroup = g, calls = [], next_ref = 0,
      next_promise = 0, reactions = [], resumptions = [], fulfilled = [], rejected = [],
      unresolved = []\<rparr>"

text \<open>
  \<open>tracked st\<close>: the identities of the revived inputs the service still has to deal with
  or has dealt with: not yet resolved, suspended before the push, queued, or handed to a
  reviver.
\<close>

definition tracked :: "service \<Rightarrow> nat list" where
  "tracked st =
     map ref (unresolved st) @ map (\<lambda>j. ref (fst j)) (resumptions st) @
     map (\<lambda>x. ref (input x)) (awaitingRevival st) @ map snd (revivals (calls st))"

section \<open>Reading the trace, and sample data\<close>

text \<open>\<open>issued st st'\<close>: the calls on collaborators made between \<open>st\<close> and \<open>st'\<close>.\<close>

definition issued :: "service \<Rightarrow> service \<Rightarrow> collaborator_call list" where
  "issued st st' = drop (length (calls st)) (calls st')"

definition no_options :: webview_input_options where
  "no_options =
     \<lparr>enableCommandUris = None, enableFindWidget = None, enableScripts = None,
      retainContextWhenHidden = None, tryRestoreScrollPosition = None,
      localResourceRoots = None\<rparr>"

text \<open>The first input that \<^verbatim>\<open>reviveWebview("markdown.preview", 7, ...)\<close> builds.\<close>

definition markdown_input :: webview_editor_input where
  "markdown_input =
     \<lparr>ref = 0, viewType = ''markdown.preview'', input_id = Some 7, title = ''Preview'',
      options = no_options, persisted = ''s'', extensionLocation = None, iconPath = None,
      group = None\<rparr>"

definition other_reviver :: webview_reviver where
  "other_reviver = \<lparr>rid = 1, reviver_canRevive = (\<lambda>w. viewType w = ''other.type'')\<rparr>"

definition markdown_reviver :: webview_reviver where
  "markdown_reviver = \<lparr>rid = 2, reviver_canRevive = (\<lambda>w. viewType w = ''markdown.preview'')\<rparr>"

definition second_markdown_reviver :: webview_reviver where
  "second_markdown_reviver =
     \<lparr>rid = 3, reviver_canRevive = (\<lambda>w. viewType w = ''markdown.preview'')\<rparr>"

definition no_groups :: "group_identifier option \<Rightarrow> editor_group option" where
  "no_groups g = None"

text \<open>A group service that knows group 1 and no other.\<close>

definition only_group_1 :: "group_identifier option \<Rightarrow> editor_group option" where
  "only_group_1 g = (if g = Some 1 then Some \<lparr>group_id = 1\<rparr> else None)"

text \<open>\<open>consulted rs w\<close>: the revivers that a loop with early return over \<open>rs\<close> asks
  about \<open>w\<close>: all up to and including the first that accepts.\<close>

definition consulted :: "webview_reviver list \<Rightarrow> webview_editor_input \<Rightarrow> webview_reviver list" where
  "consulted rs w = take (Suc (length (takeWhile (\<lambda>r. \<not> reviver_canRevive r w) rs))) rs"

definition other_input :: webview_editor_input where
  "other_input =
     \<lparr>ref = 1, viewType = ''other.type'', input_id = Some 8, title = ''Other'',
      options = no_options, persisted = ''s'', extensionLocation = None, iconPath = None,
      group = None\<rparr>"


definition queued_state :: service where
  "queued_state =
     \<lparr>revivers = [],
      awaitingRevival =
        [\<lparr>input = markdown_input, resolve = 2\<rparr>, \<lparr>input = other_input, resolve = 3\<rparr>],
      getGroup = no_groups, calls = [], next_ref = 2, next_promise = 4,
      reactions = [(2, ReturnFromCallback 0), (3, ReturnFromCallback 1)],
      resumptions = [], fulfilled = [], rejected = [], unresolved = []\<rparr>"

text \<open>
  The invariant of the revived inputs: no identity is tracked twice, and every tracked
  identity has been allocated.
\<close>

definition revival_invariant :: "service \<Rightarrow> bool" where
  "revival_invariant st = (distinct (tracked st) \<and> (\<forall>x \<in> set (tracked st). x < next_ref st))"

text \<open>
  An object to register whose \<^verbatim>\<open>canRevive\<close> does not answer the same each time; the
  answers come with the call that registers it: accepting at the first two invocations and
  rejecting afterwards, or the other way round.
\<close>

definition accept_then_reject :: "nat \<Rightarrow> webview_editor_input \<Rightarrow> bool" where
  "accept_then_reject k w = (k < 2)"

definition reject_then_accept :: "nat \<Rightarrow> webview_editor_input \<Rightarrow> bool" where
  "reject_then_accept k w = (2 \<le> k)"

definition fickle_reviver :: webview_reviver where
  "fickle_reviver = \<lparr>rid = 4, reviver_canRevive = (\<lambda>w. True)\<rparr>"




section \<open>Creating and revealing\<close>

text \<open>
  C9. \<^verbatim>\<open>createWebview\<close> builds the input from its arguments (no id, the state
  \<^verbatim>\<open>{}\<close>), issues one call on a collaborator, the \<^verbatim>\<open>openEditor\<close> of that input
  with \<^verbatim>\<open>pinned: true\<close>, the given \<^verbatim>\<open>preserveFocus\<close> and the given group, and
  returns the input. Nothing of the service changes but the trace and the allocation
  counter: the set of revivers and the queue are as before, and no reaction or resumption
  is registered, so nothing of the service waits for the display to complete.
\<close>

theorem createWebview_displays_once:
  "fst (createWebview vt t so opts ext st) =
      \<lparr>ref = next_ref st, viewType = vt, input_id = None, title = t, options = opts,
       persisted = ''{}'', extensionLocation = ext, iconPath = None, group = None\<rparr>
   \<and> issued st (snd (createWebview vt t so opts ext st)) =
       [OpenEditor (fst (createWebview vt t so opts ext st))
          \<lparr>pinned = Some True, preserveFocus = showPreserveFocus so\<rparr> (Some (showGroup so))]
   \<and> revivers (snd (createWebview vt t so opts ext st)) = revivers st
   \<and> awaitingRevival (snd (createWebview vt t so opts ext st)) = awaitingRevival st
   \<and> reactions (snd (createWebview vt t so opts ext st)) = reactions st
   \<and> resumptions (snd (createWebview vt t so opts ext st)) = resumptions st
   \<and> (snd (createWebview vt t so opts ext st))\<lparr>calls := calls st, next_ref := next_ref st\<rparr> = st"
  by (simp add: createWebview_def createInstance_def openEditor_def record_call_def issued_def)

theorem createWebview_displays_once_witness:
  "issued (initial no_groups)
     (snd (createWebview ''markdown.preview'' ''Preview''
             \<lparr>showGroup = SIDE_GROUP, showPreserveFocus = True\<rparr> no_options None (initial no_groups))) =
   [OpenEditor
      \<lparr>ref = 0, viewType = ''markdown.preview'', input_id = None, title = ''Preview'',
       options = no_options, persisted = ''{}'', extensionLocation = None, iconPath = None,
       group = None\<rparr>
      \<lparr>pinned = Some True, preserveFocus = True\<rparr> (Some SIDE_GROUP)]"
  using createWebview_displays_once
          [where vt = "''markdown.preview''" and t = "''Preview''" and opts = no_options
             and ext = None and st = "initial no_groups"
             and so = "\<lparr>showGroup = SIDE_GROUP, showPreserveFocus = True\<rparr>"]
  by (simp add: initial_def)

text \<open>
  C7. When the input's \<^verbatim>\<open>group\<close> is the target's \<^verbatim>\<open>id\<close>, \<^verbatim>\<open>revealWebview\<close> issues
  exactly one call, an \<^verbatim>\<open>openEditor\<close> of the input in its current group with the given
  \<^verbatim>\<open>preserveFocus\<close>; it issues no \<^verbatim>\<open>moveEditor\<close>, and nothing but the trace changes.
\<close>

theorem revealWebview_same_group_redisplays:
  assumes "group w = Some (group_id g)"
  shows "issued st (revealWebview w g pf st) =
           [OpenEditor w \<lparr>pinned = None, preserveFocus = pf\<rparr> (map_option GroupId (group w))]
       \<and> length (filter is_OpenEditor (issued st (revealWebview w g pf st))) = 1
       \<and> filter is_MoveEditor (issued st (revealWebview w g pf st)) = []
       \<and> (revealWebview w g pf st)\<lparr>calls := calls st\<rparr> = st"
  using assms by (simp add: revealWebview_def openEditor_def record_call_def issued_def)

theorem revealWebview_same_group_redisplays_witness:
  "issued (initial only_group_1)
     (revealWebview (markdown_input\<lparr>group := Some 1\<rparr>) \<lparr>group_id = 1\<rparr> True (initial only_group_1)) =
   [OpenEditor (markdown_input\<lparr>group := Some 1\<rparr>) \<lparr>pinned = None, preserveFocus = True\<rparr>
      (Some (GroupId 1))]"
  using revealWebview_same_group_redisplays
          [of "markdown_input\<lparr>group := Some 1\<rparr>" "\<lparr>group_id = 1\<rparr>" "initial only_group_1" True]
  by simp

text \<open>
  C2, as stated, says that \<^verbatim>\<open>revealWebview\<close> looks the target group up and does nothing when
  the target cannot be resolved. The code looks up the group the input is in
  (\<^verbatim>\<open>getGroup(webview.group!)\<close>) and asks that group's view to move the input to the
  target. With a group service that knows group 1 only: an input in group 1 is moved to
  the target 2, which the service cannot resolve; and an input in group 3 is not moved to
  the target 1, which the service can resolve (the lookup was for group 3).
\<close>

theorem revealWebview_target_lookup_counterexample:
  "group (markdown_input\<lparr>group := Some 1\<rparr>) \<noteq> Some (group_id \<lparr>group_id = 2\<rparr>)
   \<and> getGroup (initial only_group_1) (Some (group_id \<lparr>group_id = 2\<rparr>)) = None
   \<and> issued (initial only_group_1)
        (revealWebview (markdown_input\<lparr>group := Some 1\<rparr>) \<lparr>group_id = 2\<rparr> True (initial only_group_1)) =
      [GetGroup (Some 1),
       MoveEditor \<lparr>group_id = 1\<rparr> (markdown_input\<lparr>group := Some 1\<rparr>) \<lparr>group_id = 2\<rparr>
         \<lparr>pinned = None, preserveFocus = True\<rparr>]
   \<and> group (markdown_input\<lparr>group := Some 3\<rparr>) \<noteq> Some (group_id \<lparr>group_id = 1\<rparr>)
   \<and> getGroup (initial only_group_1) (Some (group_id \<lparr>group_id = 1\<rparr>)) = Some \<lparr>group_id = 1\<rparr>
   \<and> issued (initial only_group_1)
        (revealWebview (markdown_input\<lparr>group := Some 3\<rparr>) \<lparr>group_id = 1\<rparr> True (initial only_group_1)) =
      [GetGroup (Some 3)]"
  by (simp add: revealWebview_def record_call_def issued_def initial_def only_group_1_def)

text \<open>
  C2, amended. When the input's \<^verbatim>\<open>group\<close> is not the target's \<^verbatim>\<open>id\<close>,
  \<^verbatim>\<open>revealWebview\<close> asks the group service for the group the input is in (also when that
  is \<^verbatim>\<open>undefined\<close>). If the service answers with a view, the one request issued is that
  view's \<^verbatim>\<open>moveEditor\<close> of the input to the target with the given \<^verbatim>\<open>preserveFocus\<close>; if
  it answers nothing, no request is issued. In both cases nothing but the trace changes.
\<close>

theorem revealWebview_moves_from_current_group:
  assumes "group w \<noteq> Some (group_id g)"
  shows "issued st (revealWebview w g pf st) =
           (case getGroup st (group w) of
              Some groupView \<Rightarrow>
                [GetGroup (group w),
                 MoveEditor groupView w g \<lparr>pinned = None, preserveFocus = pf\<rparr>]
            | None \<Rightarrow> [GetGroup (group w)])
       \<and> filter is_OpenEditor (issued st (revealWebview w g pf st)) = []
       \<and> (getGroup st (group w) = None \<longrightarrow>
            filter is_MoveEditor (issued st (revealWebview w g pf st)) = [])
       \<and> (revealWebview w g pf st)\<lparr>calls := calls st\<rparr> = st"
  using assms
  by (simp add: revealWebview_def record_call_def issued_def Let_def split: option.splits)

theorem revealWebview_moves_from_current_group_witness:
  "issued (initial only_group_1)
     (revealWebview (markdown_input\<lparr>group := Some 1\<rparr>) \<lparr>group_id = 2\<rparr> False (initial only_group_1)) =
   [GetGroup (Some 1),
    MoveEditor \<lparr>group_id = 1\<rparr> (markdown_input\<lparr>group := Some 1\<rparr>) \<lparr>group_id = 2\<rparr>
      \<lparr>pinned = None, preserveFocus = False\<rparr>]
   \<and> filter is_MoveEditor
        (issued (initial only_group_1)
           (revealWebview markdown_input \<lparr>group_id = 2\<rparr> False (initial only_group_1))) = []"
  using revealWebview_moves_from_current_group
          [of "markdown_input\<lparr>group := Some 1\<rparr>" "\<lparr>group_id = 2\<rparr>" "initial only_group_1" False]
        revealWebview_moves_from_current_group
          [of markdown_input "\<lparr>group_id = 2\<rparr>" "initial only_group_1" False]
  by (simp add: initial_def only_group_1_def markdown_input_def)

section \<open>The registry: \<^verbatim>\<open>canRevive\<close> and \<^verbatim>\<open>tryRevive\<close>\<close>

lemma map_filter_append: "List.map_filter f (xs @ ys) = List.map_filter f xs @ List.map_filter f ys"
  by (simp add: List.map_filter_def)

lemma revivals_append: "revivals (xs @ ys) = revivals xs @ revivals ys"
  by (simp add: revivals_def map_filter_append)

lemma asked_append: "asked (xs @ ys) = asked xs @ asked ys"
  by (simp add: asked_def map_filter_append)

lemma canRevive_loop_result:
  "fst (canRevive_loop rs w st) = (\<exists>r \<in> set rs. reviver_canRevive r w)"
  by (induction rs arbitrary: st) (auto simp: Let_def)

lemma consulted_Nil: "consulted [] w = []" by (simp add: consulted_def)
lemma consulted_Cons: "consulted (r # rs) w = (if reviver_canRevive r w then [r] else r # consulted rs w)"
  by (simp add: consulted_def)

lemma consulted_hit:
  "\<forall>x \<in> set pre. \<not> reviver_canRevive x w \<Longrightarrow> reviver_canRevive r w \<Longrightarrow> consulted (pre @ r # post) w = pre @ [r]"
  by (induction pre) (simp_all add: consulted_Cons)

lemma consulted_miss:
  "\<forall>x \<in> set rs. \<not> reviver_canRevive x w \<Longrightarrow> consulted rs w = rs"
  by (induction rs) (simp_all add: consulted_Cons consulted_Nil)

lemma canRevive_loop_state:
  "snd (canRevive_loop rs w st) =
     st\<lparr>calls := calls st @ map (\<lambda>r. CanReviveCall (rid r) w) (consulted rs w)\<rparr>"
  by (induction rs arbitrary: st) (auto simp: Let_def record_call_def consulted_Cons consulted_Nil)


text \<open>
  C4. \<^verbatim>\<open>canRevive\<close> answers \<^verbatim>\<open>true\<close> exactly when some registered reviver's
  \<^verbatim>\<open>canRevive\<close> accepts the input, so \<^verbatim>\<open>false\<close> on an empty registry. It asks the
  revivers in insertion order up to the first that accepts, and changes nothing of the
  service: the registry and the queue are as before, and but for the record of the
  questions asked the whole state is.
\<close>

theorem canRevive_iff:
  "fst (canRevive w st) = (\<exists>r \<in> set (revivers st). reviver_canRevive r w)
   \<and> (revivers st = [] \<longrightarrow> \<not> fst (canRevive w st))
   \<and> revivers (snd (canRevive w st)) = revivers st
   \<and> awaitingRevival (snd (canRevive w st)) = awaitingRevival st
   \<and> issued st (snd (canRevive w st)) = map (\<lambda>r. CanReviveCall (rid r) w) (consulted (revivers st) w)
   \<and> (snd (canRevive w st))\<lparr>calls := calls st\<rparr> = st"
  by (simp add: canRevive_def canRevive_loop_result canRevive_loop_state issued_def)

theorem canRevive_iff_witness:
  "fst (canRevive markdown_input (queued_state\<lparr>revivers := [other_reviver, markdown_reviver]\<rparr>))
   \<and> \<not> fst (canRevive markdown_input (queued_state\<lparr>revivers := [other_reviver]\<rparr>))
   \<and> \<not> fst (canRevive markdown_input queued_state)"
  using canRevive_iff [where w = markdown_input and st = "queued_state\<lparr>revivers := [other_reviver, markdown_reviver]\<rparr>"]
        canRevive_iff [where w = markdown_input and st = "queued_state\<lparr>revivers := [other_reviver]\<rparr>"]
        canRevive_iff [where w = markdown_input and st = queued_state]
  by (simp add: queued_state_def other_reviver_def markdown_reviver_def markdown_input_def)

lemma tryRevive_loop_hit:
  "\<forall>x \<in> set pre. \<not> reviver_canRevive x w \<Longrightarrow> reviver_canRevive r w \<Longrightarrow>
   tryRevive_loop (pre @ r # post) w st =
     (AwaitsThenTrue (next_promise st),
      st\<lparr>calls := calls st @ map (\<lambda>x. CanReviveCall (rid x) w) (pre @ [r]) @
                   [ReviveWebviewCall (rid r) w (next_promise st)],
         next_promise := Suc (next_promise st)\<rparr>)"
  by (induction pre arbitrary: st) (simp_all add: Let_def record_call_def)

lemma tryRevive_loop_miss:
  "\<forall>x \<in> set rs. \<not> reviver_canRevive x w \<Longrightarrow>
   tryRevive_loop rs w st = (ResolvesFalse, st\<lparr>calls := calls st @ map (\<lambda>x. CanReviveCall (rid x) w) rs\<rparr>)"
  by (induction rs arbitrary: st) (simp_all add: Let_def record_call_def)

lemma tryRevive_loop_frame:
  "revivers (snd (tryRevive_loop rs w st)) = revivers st \<and>
   awaitingRevival (snd (tryRevive_loop rs w st)) = awaitingRevival st \<and>
   reactions (snd (tryRevive_loop rs w st)) = reactions st \<and>
   resumptions (snd (tryRevive_loop rs w st)) = resumptions st \<and>
   unresolved (snd (tryRevive_loop rs w st)) = unresolved st \<and>
   fulfilled (snd (tryRevive_loop rs w st)) = fulfilled st \<and>
   rejected (snd (tryRevive_loop rs w st)) = rejected st \<and>
   next_ref (snd (tryRevive_loop rs w st)) = next_ref st"
  by (induction rs arbitrary: st) (simp_all add: Let_def record_call_def)

text \<open>
  C5. \<^verbatim>\<open>tryRevive\<close> asks the registered revivers in insertion order. At the first that
  accepts the input it calls that reviver's \<^verbatim>\<open>reviveWebview\<close>, waits for the promise of
  that call and then returns \<^verbatim>\<open>true\<close>; the trace shows that no later reviver is asked or
  called. If none accepts, it returns \<^verbatim>\<open>false\<close>, having asked every reviver, and nothing
  but the record of the questions has changed. In both cases the registry and the queue
  are as before.
\<close>

theorem tryRevive_first_match:
  "(revivers st = pre @ r # post \<and> (\<forall>x \<in> set pre. \<not> reviver_canRevive x w) \<and> reviver_canRevive r w \<longrightarrow>
      fst (tryRevive w st) = AwaitsThenTrue (next_promise st)
      \<and> issued st (snd (tryRevive w st)) =
          map (\<lambda>x. CanReviveCall (rid x) w) (pre @ [r]) @ [ReviveWebviewCall (rid r) w (next_promise st)])
   \<and> ((\<forall>x \<in> set (revivers st). \<not> reviver_canRevive x w) \<longrightarrow>
      fst (tryRevive w st) = ResolvesFalse
      \<and> issued st (snd (tryRevive w st)) = map (\<lambda>x. CanReviveCall (rid x) w) (revivers st)
      \<and> (snd (tryRevive w st))\<lparr>calls := calls st\<rparr> = st)
   \<and> revivers (snd (tryRevive w st)) = revivers st
   \<and> awaitingRevival (snd (tryRevive w st)) = awaitingRevival st"
  by (auto simp: tryRevive_def tryRevive_loop_hit tryRevive_loop_miss tryRevive_loop_frame issued_def)

theorem tryRevive_first_match_witness:
  "fst (tryRevive markdown_input
          (queued_state\<lparr>revivers := [other_reviver, markdown_reviver, second_markdown_reviver]\<rparr>)) =
     AwaitsThenTrue 4
   \<and> issued (queued_state\<lparr>revivers := [other_reviver, markdown_reviver, second_markdown_reviver]\<rparr>)
        (snd (tryRevive markdown_input
          (queued_state\<lparr>revivers := [other_reviver, markdown_reviver, second_markdown_reviver]\<rparr>))) =
     [CanReviveCall 1 markdown_input, CanReviveCall 2 markdown_input,
      ReviveWebviewCall 2 markdown_input 4]
   \<and> fst (tryRevive markdown_input (queued_state\<lparr>revivers := [other_reviver]\<rparr>)) = ResolvesFalse"
  using tryRevive_first_match
          [where w = markdown_input and pre = "[other_reviver]" and r = markdown_reviver
             and post = "[second_markdown_reviver]"
             and st = "queued_state\<lparr>revivers := [other_reviver, markdown_reviver, second_markdown_reviver]\<rparr>"]
        tryRevive_first_match
          [where w = markdown_input and st = "queued_state\<lparr>revivers := [other_reviver]\<rparr>"]
  by (simp add: queued_state_def other_reviver_def markdown_reviver_def markdown_input_def)

section \<open>Registering a reviver\<close>

lemma dispatch_state:
  "registerReviver_dispatch r xs st =
     st\<lparr>calls := calls st @ map (\<lambda>(i, x). ReviveWebviewCall (rid r) (input x) i) (enumerate (next_promise st) xs),
        next_promise := next_promise st + length xs,
        reactions := reactions st @ map (\<lambda>(i, x). (i, ResolveAwaiting (resolve x))) (enumerate (next_promise st) xs)\<rparr>"
  by (induction xs arbitrary: st) (simp_all add: record_call_def)

lemma filter_asking_same_answer:
  "\<forall>i j x. answer i x = answer j x \<Longrightarrow> filter_asking answer k xs = filter (answer 0) xs"
proof (induction xs arbitrary: k)
  case Nil
  then show ?case by simp
next
  case (Cons x xs)
  have head: "answer k x = answer 0 x" using Cons.prems by blast
  have tail: "filter_asking answer (Suc k) xs = filter (answer 0) xs"
    using Cons.IH [OF Cons.prems] .
  show ?case by (simp only: filter_asking.simps filter.simps head tail)
qed

lemma registerReviver_passes_same_answer:
  assumes "\<forall>i j w. answer i w = answer j w"
  shows "registerReviver_passes answer q =
           (filter (\<lambda>x. answer 0 (input x)) q, filter (\<lambda>x. \<not> answer 0 (input x)) q)"
proof -
  have 1: "filter_asking (\<lambda>k x. answer k (input x)) 0 q = filter (\<lambda>x. answer 0 (input x)) q"
    using assms by (intro filter_asking_same_answer) blast
  have 2: "filter_asking (\<lambda>k x. \<not> answer k (input x)) (length q) q = filter (\<lambda>x. \<not> answer 0 (input x)) q"
    using assms by (intro filter_asking_same_answer) blast
  show ?thesis by (simp add: registerReviver_passes_def 1 2)
qed

lemma registerReviver_scan_passes:
  "fst (registerReviver_scan answer r st) = fst (registerReviver_passes answer (awaitingRevival st))
   \<and> awaitingRevival (snd (registerReviver_scan answer r st)) =
       snd (registerReviver_passes answer (awaitingRevival st))"
  by (simp add: registerReviver_scan_def registerReviver_passes_def Let_def)

lemma registerReviver_answered_state:
  "snd (registerReviver_answered answer r st) =
     st\<lparr>revivers := set_add r (revivers st),
        awaitingRevival := snd (registerReviver_passes answer (awaitingRevival st)),
        calls := calls st @ ask_all r (awaitingRevival st) @ ask_all r (awaitingRevival st) @
                 map (\<lambda>(i, x). ReviveWebviewCall (rid r) (input x) i)
                   (enumerate (next_promise st) (fst (registerReviver_passes answer (awaitingRevival st)))),
        next_promise := next_promise st + length (fst (registerReviver_passes answer (awaitingRevival st))),
        reactions := reactions st @ map (\<lambda>(i, x). (i, ResolveAwaiting (resolve x)))
                   (enumerate (next_promise st) (fst (registerReviver_passes answer (awaitingRevival st))))\<rparr>"
  by (simp add: registerReviver_answered_def registerReviver_scan_def registerReviver_passes_def
        dispatch_state Let_def)

lemma registerReviver_answered_same_state:
  assumes "\<forall>i j w. answer i w = answer j w"
  shows "snd (registerReviver_answered answer r st) =
     st\<lparr>revivers := set_add r (revivers st),
        awaitingRevival := filter (\<lambda>x. \<not> answer 0 (input x)) (awaitingRevival st),
        calls := calls st @ ask_all r (awaitingRevival st) @ ask_all r (awaitingRevival st) @
                 map (\<lambda>(i, x). ReviveWebviewCall (rid r) (input x) i)
                   (enumerate (next_promise st) (filter (\<lambda>x. answer 0 (input x)) (awaitingRevival st))),
        next_promise := next_promise st + length (filter (\<lambda>x. answer 0 (input x)) (awaitingRevival st)),
        reactions := reactions st @ map (\<lambda>(i, x). (i, ResolveAwaiting (resolve x)))
                   (enumerate (next_promise st) (filter (\<lambda>x. answer 0 (input x)) (awaitingRevival st)))\<rparr>"
  by (simp add: registerReviver_answered_state registerReviver_passes_same_answer [OF assms])

lemma registerReviver_state:
  "snd (registerReviver r st) =
     st\<lparr>revivers := set_add r (revivers st),
        awaitingRevival := filter (\<lambda>x. \<not> reviver_canRevive r (input x)) (awaitingRevival st),
        calls := calls st @ ask_all r (awaitingRevival st) @ ask_all r (awaitingRevival st) @
                 map (\<lambda>(i, x). ReviveWebviewCall (rid r) (input x) i)
                   (enumerate (next_promise st) (filter (\<lambda>x. reviver_canRevive r (input x)) (awaitingRevival st))),
        next_promise := next_promise st + length (filter (\<lambda>x. reviver_canRevive r (input x)) (awaitingRevival st)),
        reactions := reactions st @ map (\<lambda>(i, x). (i, ResolveAwaiting (resolve x)))
                   (enumerate (next_promise st) (filter (\<lambda>x. reviver_canRevive r (input x)) (awaitingRevival st)))\<rparr>"
  using registerReviver_answered_same_state [of "\<lambda>k. reviver_canRevive r" r st]
  by (simp add: registerReviver_def)

lemma revivals_asks [simp]: "revivals (ask_all r q) = []"
  by (induction q) (simp_all add: ask_all_def revivals_def)

lemma revivals_dispatches:
  "revivals (map (\<lambda>(i, x). ReviveWebviewCall (rid r) (input x) i) (enumerate n xs)) = map (\<lambda>x. (rid r, ref (input x))) xs"
  by (induction xs arbitrary: n) (simp_all add: revivals_def)

lemma fulfilled_fold_mono:
  "s \<in> set (fulfilled st) \<Longrightarrow> s \<in> set (fulfilled (fold (run_reaction b) rs st))"
proof (induction rs arbitrary: st)
  case Nil then show ?case by simp
next
  case (Cons a rs)
  have "s \<in> set (fulfilled (run_reaction b a st))"
    using Cons.prems by (cases a; cases b) simp_all
  then show ?case using Cons.IH by simp
qed

lemma fulfilled_fold_resolves:
  "ResolveAwaiting s \<in> set rs \<Longrightarrow> s \<in> set (fulfilled (fold (run_reaction True) rs st))"
proof (induction rs arbitrary: st)
  case Nil then show ?case by simp
next
  case (Cons a rs)
  show ?case
  proof (cases "a = ResolveAwaiting s")
    case True
    then have "s \<in> set (fulfilled (run_reaction True a st))" by simp
    then show ?thesis using fulfilled_fold_mono by simp
  next
    case False
    then have "ResolveAwaiting s \<in> set rs" using Cons.prems by simp
    then show ?thesis using Cons.IH by simp
  qed
qed

lemma react_resolves:
  assumes "(p, ResolveAwaiting s) \<in> set (reactions st)" and "p \<in> set (fulfilled st)"
  shows "s \<in> set (fulfilled (react p st))"
proof -
  have "ResolveAwaiting s \<in> set (map snd (filter (\<lambda>pr. fst pr = p) (reactions st)))"
    using assms(1) by force
  then show ?thesis
    using assms(2) by (simp add: react_def Let_def fulfilled_fold_resolves)
qed


lemma registerReviver_queue:
  "awaitingRevival (snd (registerReviver r st)) = filter (\<lambda>x. \<not> reviver_canRevive r (input x)) (awaitingRevival st)"
  by (simp add: registerReviver_state)

lemma registerReviver_issued:
  "issued st (snd (registerReviver r st)) =
     ask_all r (awaitingRevival st) @ ask_all r (awaitingRevival st) @
     map (\<lambda>(i, x). ReviveWebviewCall (rid r) (input x) i)
       (enumerate (next_promise st) (filter (\<lambda>x. reviver_canRevive r (input x)) (awaitingRevival st)))"
  by (simp add: registerReviver_state issued_def)

lemma registerReviver_reactions:
  "reactions (snd (registerReviver r st)) = reactions st @
     map (\<lambda>(i, x). (i, ResolveAwaiting (resolve x)))
       (enumerate (next_promise st) (filter (\<lambda>x. reviver_canRevive r (input x)) (awaitingRevival st)))"
  by (simp add: registerReviver_state)

lemma registerReviver_revivals:
  "revivals (issued st (snd (registerReviver r st))) =
     map (\<lambda>x. (rid r, ref (input x))) (filter (\<lambda>x. reviver_canRevive r (input x)) (awaitingRevival st))"
  by (simp add: registerReviver_issued revivals_append revivals_dispatches)

lemma registerReviver_answered_queue:
  assumes "\<forall>i j w. answer i w = answer j w"
  shows "awaitingRevival (snd (registerReviver_answered answer r st)) =
           filter (\<lambda>x. \<not> answer 0 (input x)) (awaitingRevival st)"
  by (simp add: registerReviver_answered_same_state [OF assms])

lemma registerReviver_answered_issued:
  assumes "\<forall>i j w. answer i w = answer j w"
  shows "issued st (snd (registerReviver_answered answer r st)) =
     ask_all r (awaitingRevival st) @ ask_all r (awaitingRevival st) @
     map (\<lambda>(i, x). ReviveWebviewCall (rid r) (input x) i)
       (enumerate (next_promise st) (filter (\<lambda>x. answer 0 (input x)) (awaitingRevival st)))"
  by (simp add: registerReviver_answered_same_state [OF assms] issued_def)

lemma registerReviver_answered_reactions:
  assumes "\<forall>i j w. answer i w = answer j w"
  shows "reactions (snd (registerReviver_answered answer r st)) = reactions st @
     map (\<lambda>(i, x). (i, ResolveAwaiting (resolve x)))
       (enumerate (next_promise st) (filter (\<lambda>x. answer 0 (input x)) (awaitingRevival st)))"
  by (simp add: registerReviver_answered_same_state [OF assms])

lemma registerReviver_answered_revivals:
  assumes "\<forall>i j w. answer i w = answer j w"
  shows "revivals (issued st (snd (registerReviver_answered answer r st))) =
     map (\<lambda>x. (rid r, ref (input x))) (filter (\<lambda>x. answer 0 (input x)) (awaitingRevival st))"
  by (simp add: registerReviver_answered_issued [OF assms] revivals_append revivals_dispatches)

text \<open>Two entries are queued. A reviver that rejects at its first two invocations and
  accepts afterwards is handed nothing, and both entries leave the queue; a reviver that
  accepts at its first two invocations and rejects afterwards is handed both entries, and
  both stay queued.\<close>

lemma queued_state_queue:
  "awaitingRevival queued_state =
     [\<lparr>input = markdown_input, resolve = 2\<rparr>, \<lparr>input = other_input, resolve = 3\<rparr>]"
  by (simp add: queued_state_def)

lemma accepting_late:
  "awaitingRevival (snd (registerReviver_answered reject_then_accept fickle_reviver queued_state)) = []
   \<and> revivals (issued queued_state
        (snd (registerReviver_answered reject_then_accept fickle_reviver queued_state))) = []"
proof -
  have late: "registerReviver_passes reject_then_accept (awaitingRevival queued_state) = ([], [])"
    by (simp add: queued_state_queue registerReviver_passes_def accept_then_reject_def
          reject_then_accept_def)
  show ?thesis
    by (simp add: registerReviver_answered_state late issued_def revivals_append)
qed

lemma accepting_early:
  "awaitingRevival (snd (registerReviver_answered accept_then_reject fickle_reviver queued_state)) =
     [\<lparr>input = markdown_input, resolve = 2\<rparr>, \<lparr>input = other_input, resolve = 3\<rparr>]
   \<and> revivals (issued queued_state
        (snd (registerReviver_answered accept_then_reject fickle_reviver queued_state))) = [(4, 0), (4, 1)]"
proof -
  have early: "registerReviver_passes accept_then_reject (awaitingRevival queued_state) =
      ([\<lparr>input = markdown_input, resolve = 2\<rparr>, \<lparr>input = other_input, resolve = 3\<rparr>],
       [\<lparr>input = markdown_input, resolve = 2\<rparr>, \<lparr>input = other_input, resolve = 3\<rparr>])"
    by (simp add: queued_state_queue registerReviver_passes_def accept_then_reject_def
          reject_then_accept_def)
  have c: "awaitingRevival (snd (registerReviver_answered accept_then_reject fickle_reviver queued_state)) =
       [\<lparr>input = markdown_input, resolve = 2\<rparr>, \<lparr>input = other_input, resolve = 3\<rparr>]"
    by (simp add: registerReviver_answered_state early)
  have "revivals (issued queued_state
        (snd (registerReviver_answered accept_then_reject fickle_reviver queued_state))) =
      map (\<lambda>x. (rid fickle_reviver, ref (input x)))
        [\<lparr>input = markdown_input, resolve = 2\<rparr>, \<lparr>input = other_input, resolve = 3\<rparr>]"
    by (simp only: registerReviver_answered_state early issued_def fst_conv)
       (simp add: revivals_append, simp add: revivals_def)
  then have d: "revivals (issued queued_state
        (snd (registerReviver_answered accept_then_reject fickle_reviver queued_state))) = [(4, 0), (4, 1)]"
    by (simp add: fickle_reviver_def markdown_input_def other_input_def)
  from c d show ?thesis by blast
qed

text \<open>
  C1, as stated, is about every reviver and every queue. \<^verbatim>\<open>registerReviver\<close> asks the
  reviver about each entry twice, once to choose what to hand over and once to choose what
  to keep, and nothing makes the two answers agree. With two entries queued: a reviver
  whose answer changes from reject to accept between the passes is handed nothing, and
  both entries are removed from the queue; one whose answer changes from accept to reject
  is handed both entries, and both stay queued.
\<close>

theorem registerReviver_changing_answer_counterexample:
  "awaitingRevival queued_state =
     [\<lparr>input = markdown_input, resolve = 2\<rparr>, \<lparr>input = other_input, resolve = 3\<rparr>]
   \<and> awaitingRevival (snd (registerReviver_answered reject_then_accept fickle_reviver queued_state)) = []
   \<and> revivals (issued queued_state
        (snd (registerReviver_answered reject_then_accept fickle_reviver queued_state))) = []
   \<and> awaitingRevival (snd (registerReviver_answered accept_then_reject fickle_reviver queued_state)) =
       [\<lparr>input = markdown_input, resolve = 2\<rparr>, \<lparr>input = other_input, resolve = 3\<rparr>]
   \<and> revivals (issued queued_state
        (snd (registerReviver_answered accept_then_reject fickle_reviver queued_state))) = [(4, 0), (4, 1)]"
  using queued_state_queue accepting_late accepting_early by blast

text \<open>
  C1, amended. Let the reviver's \<^verbatim>\<open>canRevive\<close> be a function of the input: it answers
  the same for the same input at every invocation (so \<open>answer 0\<close> is its answer).
  Then \<^verbatim>\<open>registerReviver\<close> leaves in the queue the entries whose input the reviver does
  not accept, in their order, and removes exactly the others (the matched ones): every
  entry of the old queue is either matched or still queued. It calls the reviver's
  \<^verbatim>\<open>reviveWebview\<close> once for each matched entry, in queue order, after the two passes that
  ask about every entry; the promise of the \<open>i\<close>-th call carries the reaction that
  resolves the \<open>i\<close>-th matched entry's promise, and running the reactions of that
  promise once it is fulfilled resolves it. When the reviver accepts no queued input the
  queue is unchanged and no reviver is called.
\<close>

theorem registerReviver_deterministic_drains_matching:
  fixes answer r st
  defines "q \<equiv> awaitingRevival st"
    and "st' \<equiv> snd (registerReviver_answered answer r st)"
    and "matched \<equiv> filter (\<lambda>x. answer 0 (input x)) (awaitingRevival st)"
  assumes same: "\<forall>i j w. answer i w = answer j w"
  shows "awaitingRevival st' = filter (\<lambda>x. \<not> answer 0 (input x)) q
       \<and> set q - set (awaitingRevival st') = {x \<in> set q. answer 0 (input x)}
       \<and> mset q = mset matched + mset (awaitingRevival st')
       \<and> subseq (awaitingRevival st') q
       \<and> revivals (issued st st') = map (\<lambda>x. (rid r, ref (input x))) matched
       \<and> issued st st' = ask_all r q @ ask_all r q @
           map (\<lambda>(i, x). ReviveWebviewCall (rid r) (input x) i) (enumerate (next_promise st) matched)
       \<and> reactions st' = reactions st @
           map (\<lambda>(i, x). (i, ResolveAwaiting (resolve x))) (enumerate (next_promise st) matched)
       \<and> (\<forall>i < length matched. \<forall>st2.
             (next_promise st + i, ResolveAwaiting (resolve (matched ! i))) \<in> set (reactions st2)
             \<and> next_promise st + i \<in> set (fulfilled st2)
             \<longrightarrow> resolve (matched ! i) \<in> set (fulfilled (react (next_promise st + i) st2)))
       \<and> ((\<forall>x \<in> set q. \<not> answer 0 (input x)) \<longrightarrow>
             awaitingRevival st' = q \<and> revivals (issued st st') = [])"
proof -
  have kept: "awaitingRevival st' = filter (\<lambda>x. \<not> answer 0 (input x)) q"
    unfolding st'_def q_def using same by (rule registerReviver_answered_queue)
  have removed: "set q - set (awaitingRevival st') = {x \<in> set q. answer 0 (input x)}"
    unfolding kept by auto
  have split: "mset q = mset matched + mset (awaitingRevival st')"
    unfolding kept matched_def q_def by simp
  have order: "subseq (awaitingRevival st') q"
    unfolding kept by simp
  have rev: "revivals (issued st st') = map (\<lambda>x. (rid r, ref (input x))) matched"
    unfolding st'_def matched_def using same by (rule registerReviver_answered_revivals)
  have iss: "issued st st' = ask_all r q @ ask_all r q @
           map (\<lambda>(i, x). ReviveWebviewCall (rid r) (input x) i) (enumerate (next_promise st) matched)"
    unfolding st'_def matched_def q_def using same by (rule registerReviver_answered_issued)
  have reacts: "reactions st' = reactions st @
           map (\<lambda>(i, x). (i, ResolveAwaiting (resolve x))) (enumerate (next_promise st) matched)"
    unfolding st'_def matched_def using same by (rule registerReviver_answered_reactions)
  have completes: "\<forall>i < length matched. \<forall>st2.
             (next_promise st + i, ResolveAwaiting (resolve (matched ! i))) \<in> set (reactions st2)
             \<and> next_promise st + i \<in> set (fulfilled st2)
             \<longrightarrow> resolve (matched ! i) \<in> set (fulfilled (react (next_promise st + i) st2))"
    using react_resolves by blast
  have none: "(\<forall>x \<in> set q. \<not> answer 0 (input x)) \<longrightarrow>
             awaitingRevival st' = q \<and> revivals (issued st st') = []"
    unfolding kept rev matched_def q_def by (simp add: filter_empty_conv)
  from kept removed split order rev iss reacts completes none show ?thesis by blast
qed

theorem registerReviver_deterministic_drains_matching_witness:
  "awaitingRevival (snd (registerReviver markdown_reviver queued_state)) =
     [\<lparr>input = other_input, resolve = 3\<rparr>]
   \<and> revivals (issued queued_state (snd (registerReviver markdown_reviver queued_state))) = [(2, 0)]
   \<and> reactions (snd (registerReviver markdown_reviver queued_state)) =
       [(2, ReturnFromCallback 0), (3, ReturnFromCallback 1), (4, ResolveAwaiting 2)]
   \<and> 2 \<in> set (fulfilled (react 4 (settle 4 True (snd (registerReviver markdown_reviver queued_state)))))
   \<and> awaitingRevival (snd (registerReviver second_markdown_reviver (snd (registerReviver markdown_reviver queued_state)))) =
     [\<lparr>input = other_input, resolve = 3\<rparr>]"
proof -
  let ?st' = "snd (registerReviver markdown_reviver queued_state)"
  let ?m = "filter (\<lambda>x. reviver_canRevive markdown_reviver (input x)) (awaitingRevival queued_state)"
  have same: "\<forall>i j w. (\<lambda>k. reviver_canRevive markdown_reviver) i w =
      (\<lambda>k. reviver_canRevive markdown_reviver) j w" by simp
  note t = registerReviver_deterministic_drains_matching
             [where answer = "\<lambda>k. reviver_canRevive markdown_reviver" and r = markdown_reviver
                and st = queued_state, OF same, folded registerReviver_def]
  have m: "?m = [\<lparr>input = markdown_input, resolve = 2\<rparr>]"
    by (simp add: queued_state_def markdown_reviver_def markdown_input_def other_input_def)
  have np: "next_promise queued_state = 4" by (simp add: queued_state_def)
  from t have "awaitingRevival ?st' =
      filter (\<lambda>x. \<not> reviver_canRevive markdown_reviver (input x)) (awaitingRevival queued_state)"
    by blast
  then have q: "awaitingRevival ?st' = [\<lparr>input = other_input, resolve = 3\<rparr>]"
    by (simp add: queued_state_def markdown_reviver_def markdown_input_def other_input_def)
  from t have "revivals (issued queued_state ?st') = map (\<lambda>x. (rid markdown_reviver, ref (input x))) ?m"
    by blast
  then have rv: "revivals (issued queued_state ?st') = [(2, 0)]"
    by (simp add: m) (simp add: markdown_reviver_def markdown_input_def)
  from t have "reactions ?st' = reactions queued_state @
      map (\<lambda>(i, x). (i, ResolveAwaiting (resolve x))) (enumerate (next_promise queued_state) ?m)"
    by blast
  then have re: "reactions ?st' = [(2, ReturnFromCallback 0), (3, ReturnFromCallback 1), (4, ResolveAwaiting 2)]"
    by (simp add: m np) (simp add: queued_state_def)
  from t have "\<forall>i < length ?m. \<forall>st2.
      (next_promise queued_state + i, ResolveAwaiting (resolve (?m ! i))) \<in> set (reactions st2)
      \<and> next_promise queued_state + i \<in> set (fulfilled st2)
      \<longrightarrow> resolve (?m ! i) \<in> set (fulfilled (react (next_promise queued_state + i) st2))"
    by blast
  then have "\<forall>st2. (4, ResolveAwaiting 2) \<in> set (reactions st2) \<and> 4 \<in> set (fulfilled st2)
        \<longrightarrow> 2 \<in> set (fulfilled (react 4 st2))"
    by (simp add: m np)
  moreover have "(4, ResolveAwaiting 2) \<in> set (reactions (settle 4 True ?st'))
        \<and> 4 \<in> set (fulfilled (settle 4 True ?st'))"
    by (simp add: settle_def re)
  ultimately have f: "2 \<in> set (fulfilled (react 4 (settle 4 True ?st')))" by blast
  have same2: "\<forall>i j w. (\<lambda>k. reviver_canRevive second_markdown_reviver) i w =
      (\<lambda>k. reviver_canRevive second_markdown_reviver) j w" by simp
  note t2 = registerReviver_deterministic_drains_matching
              [where answer = "\<lambda>k. reviver_canRevive second_markdown_reviver"
                 and r = second_markdown_reviver and st = ?st', OF same2, folded registerReviver_def]
  from t2 have "(\<forall>x \<in> set (awaitingRevival ?st'). \<not> reviver_canRevive second_markdown_reviver (input x)) \<longrightarrow>
      awaitingRevival (snd (registerReviver second_markdown_reviver ?st')) = awaitingRevival ?st'"
    by blast
  then have q2: "awaitingRevival (snd (registerReviver second_markdown_reviver ?st')) = [\<lparr>input = other_input, resolve = 3\<rparr>]"
    by (simp add: q) (simp add: second_markdown_reviver_def other_input_def)
  from q rv re f q2 show ?thesis by simp
qed

section \<open>Deregistering a reviver\<close>

lemma asked_consulted:
  "asked (map (\<lambda>r. CanReviveCall (rid r) w) rs) = map rid rs"
  by (induction rs) (simp_all add: asked_def)

lemma set_consulted: "set (consulted rs w) \<subseteq> set rs"
  unfolding consulted_def by (rule set_take_subset)

text \<open>
  C8. The disposable that \<^verbatim>\<open>registerReviver(r)\<close> returns (after which \<open>r\<close> is
  registered) deletes \<open>r\<close> from the set when it is invoked, in whatever later state
  \<open>st2\<close>: the other revivers stay, in their order; a \<^verbatim>\<open>canRevive\<close> after it asks no
  reviver with \<open>r\<close>'s identity and answers from the others alone; and nothing else of
  the service changes: the queue, the reactions on promises in flight, the suspended
  callbacks and the trace are as before.
\<close>

theorem dispose_removes_reviver:
  fixes r st st2 w
  defines "h \<equiv> fst (registerReviver r st)"
  shows "h = Disposable r
       \<and> rid r \<in> rid ` set (revivers (snd (registerReviver r st)))
       \<and> rid r \<notin> rid ` set (revivers (dispose h st2))
       \<and> revivers (dispose h st2) = filter (\<lambda>x. rid x \<noteq> rid r) (revivers st2)
       \<and> awaitingRevival (dispose h st2) = awaitingRevival st2
       \<and> reactions (dispose h st2) = reactions st2
       \<and> resumptions (dispose h st2) = resumptions st2
       \<and> calls (dispose h st2) = calls st2
       \<and> (dispose h st2)\<lparr>revivers := revivers st2\<rparr> = st2
       \<and> rid r \<notin> set (asked (issued (dispose h st2) (snd (canRevive w (dispose h st2)))))
       \<and> fst (canRevive w (dispose h st2)) =
           (\<exists>x \<in> set (revivers st2). rid x \<noteq> rid r \<and> reviver_canRevive x w)"
proof -
  have h: "h = Disposable r"
    by (simp add: h_def registerReviver_def registerReviver_answered_def split: prod.splits)
  have reg: "rid r \<in> rid ` set (revivers (snd (registerReviver r st)))"
    by (simp add: registerReviver_state set_add_def)
  have revs: "revivers (dispose h st2) = filter (\<lambda>x. rid x \<noteq> rid r) (revivers st2)"
    by (simp add: h set_delete_def)
  have gone: "rid r \<notin> rid ` set (revivers (dispose h st2))"
    unfolding revs by auto
  have frame: "(dispose h st2)\<lparr>revivers := revivers st2\<rparr> = st2"
    by (simp add: h)
  have "set (consulted (revivers (dispose h st2)) w) \<subseteq> set (revivers (dispose h st2))"
    by (rule set_consulted)
  then have "rid r \<notin> rid ` set (consulted (revivers (dispose h st2)) w)"
    using gone by blast
  then have notasked: "rid r \<notin> set (asked (issued (dispose h st2) (snd (canRevive w (dispose h st2)))))"
    by (simp add: canRevive_def canRevive_loop_state issued_def asked_consulted)
  have answer: "fst (canRevive w (dispose h st2)) =
           (\<exists>x \<in> set (revivers st2). rid x \<noteq> rid r \<and> reviver_canRevive x w)"
    unfolding canRevive_def canRevive_loop_result revs by auto
  show ?thesis
    using h reg gone revs frame notasked answer by (simp add: h)
qed

theorem dispose_removes_reviver_witness:
  "map rid (revivers (dispose (fst (registerReviver other_reviver (initial no_groups)))
                        (queued_state\<lparr>revivers := [other_reviver, markdown_reviver]\<rparr>))) = [2]
   \<and> awaitingRevival (dispose (fst (registerReviver other_reviver (initial no_groups)))
                        (queued_state\<lparr>revivers := [other_reviver, markdown_reviver]\<rparr>)) =
       [\<lparr>input = markdown_input, resolve = 2\<rparr>, \<lparr>input = other_input, resolve = 3\<rparr>]
   \<and> fst (canRevive other_input (queued_state\<lparr>revivers := [other_reviver, markdown_reviver]\<rparr>))
   \<and> \<not> fst (canRevive other_input
              (dispose (fst (registerReviver other_reviver (initial no_groups)))
                 (queued_state\<lparr>revivers := [other_reviver, markdown_reviver]\<rparr>)))"
proof -
  let ?st2 = "queued_state\<lparr>revivers := [other_reviver, markdown_reviver]\<rparr>"
  let ?h = "fst (registerReviver other_reviver (initial no_groups))"
  note t = dispose_removes_reviver
             [where r = other_reviver and st = "initial no_groups" and ?st2.0 = ?st2 and w = other_input]
  from t have "revivers (dispose ?h ?st2) = filter (\<lambda>x. rid x \<noteq> rid other_reviver) (revivers ?st2)"
    by blast
  then have a: "map rid (revivers (dispose ?h ?st2)) = [2]"
    by (simp add: other_reviver_def markdown_reviver_def)
  from t have "awaitingRevival (dispose ?h ?st2) = awaitingRevival ?st2" by blast
  then have b: "awaitingRevival (dispose ?h ?st2) =
       [\<lparr>input = markdown_input, resolve = 2\<rparr>, \<lparr>input = other_input, resolve = 3\<rparr>]"
    by (simp add: queued_state_def)
  have c: "fst (canRevive other_input ?st2)"
    by (simp add: canRevive_def other_reviver_def other_input_def record_call_def)
  from t have "fst (canRevive other_input (dispose ?h ?st2)) =
           (\<exists>x \<in> set (revivers ?st2). rid x \<noteq> rid other_reviver \<and> reviver_canRevive x other_input)"
    by blast
  then have d: "\<not> fst (canRevive other_input (dispose ?h ?st2))"
    by (simp add: other_reviver_def markdown_reviver_def other_input_def)
  from a b c d show ?thesis by blast
qed

section \<open>The two passes over the queue\<close>

lemma asked_ask_all: "asked (ask_all r q) = replicate (length q) (rid r)"
  by (induction q) (simp_all add: ask_all_def asked_def)

lemma asked_dispatches:
  "asked (map (\<lambda>(i, x). ReviveWebviewCall (rid r) (input x) i) (enumerate n xs)) = []"
  by (induction xs arbitrary: n) (simp_all add: asked_def)

lemma registerReviver_scan_fst:
  "fst (registerReviver_scan (\<lambda>k. reviver_canRevive r) r st) =
     filter (\<lambda>x. reviver_canRevive r (input x)) (awaitingRevival st)"
  by (simp add: registerReviver_scan_passes registerReviver_passes_same_answer)

text \<open>When the answer changes between the two passes, an entry is handed to the reviver
  and kept as well, or dropped without being handed to anyone.\<close>

lemma registerReviver_passes_changing_answer:
  "registerReviver_passes (\<lambda>k w. even k) [e] = ([e], [e])
   \<and> registerReviver_passes (\<lambda>k w. odd k) [e] = ([], [])"
  by (simp add: registerReviver_passes_def)

text \<open>
  C10. \<^verbatim>\<open>registerReviver(r)\<close> asks \<open>r\<close> about every queued input twice, in two
  passes: the trace has \<open>r\<close> asked once per entry, and then once per entry again. With
  the invocations counted (\<open>registerReviver_passes\<close>), and under the hypothesis that the
  answer does not depend on the invocation but on the input alone: the entries removed from
  the queue are the entries handed to \<open>r\<close>, every entry is in exactly one of the two
  lists, and no entry that stays satisfies the check. For a reviver of the service, whose
  check is a function of the input, the two lists are the ones \<^verbatim>\<open>registerReviver\<close>
  dispatches and keeps.
\<close>

theorem registerReviver_two_passes:
  fixes r st answer q
  defines "st' \<equiv> snd (registerReviver r st)"
    and "toRevive \<equiv> fst (registerReviver_passes answer q)"
    and "kept \<equiv> snd (registerReviver_passes answer q)"
  shows "asked (issued st st') =
           replicate (length (awaitingRevival st)) (rid r) @ replicate (length (awaitingRevival st)) (rid r)
       \<and> registerReviver_passes (\<lambda>k. reviver_canRevive r) (awaitingRevival st) =
           (fst (registerReviver_scan (\<lambda>k. reviver_canRevive r) r st), awaitingRevival st')
       \<and> revivals (issued st st') = map (\<lambda>x. (rid r, ref (input x))) (fst (registerReviver_scan (\<lambda>k. reviver_canRevive r) r st))
       \<and> ((\<forall>i j w. answer i w = answer j w) \<longrightarrow>
             set q - set kept = set toRevive
             \<and> mset q = mset toRevive + mset kept
             \<and> (\<forall>x \<in> set kept. \<forall>k. \<not> answer k (input x)))"
proof -
  have passes: "asked (issued st st') =
           replicate (length (awaitingRevival st)) (rid r) @ replicate (length (awaitingRevival st)) (rid r)"
    by (simp add: st'_def registerReviver_issued asked_append asked_ask_all asked_dispatches)
  have link: "registerReviver_passes (\<lambda>k. reviver_canRevive r) (awaitingRevival st) =
           (fst (registerReviver_scan (\<lambda>k. reviver_canRevive r) r st), awaitingRevival st')"
    by (simp add: st'_def registerReviver_passes_same_answer registerReviver_scan_fst registerReviver_queue)
  have disp: "revivals (issued st st') = map (\<lambda>x. (rid r, ref (input x))) (fst (registerReviver_scan (\<lambda>k. reviver_canRevive r) r st))"
    by (simp add: st'_def registerReviver_revivals registerReviver_scan_fst)
  have det: "(\<forall>i j w. answer i w = answer j w) \<longrightarrow>
             set q - set kept = set toRevive
             \<and> mset q = mset toRevive + mset kept
             \<and> (\<forall>x \<in> set kept. \<forall>k. \<not> answer k (input x))"
  proof
    assume same: "\<forall>i j w. answer i w = answer j w"
    have t: "toRevive = filter (\<lambda>x. answer 0 (input x)) q"
      and k: "kept = filter (\<lambda>x. \<not> answer 0 (input x)) q"
      by (simp_all add: toRevive_def kept_def registerReviver_passes_same_answer [OF same])
    have a: "set q - set kept = set toRevive" unfolding t k by auto
    have b: "mset q = mset toRevive + mset kept" unfolding t k by simp
    have c: "\<forall>x \<in> set kept. \<forall>k. \<not> answer k (input x)"
      unfolding k using same by auto
    from a b c show "set q - set kept = set toRevive
             \<and> mset q = mset toRevive + mset kept
             \<and> (\<forall>x \<in> set kept. \<forall>k. \<not> answer k (input x))" by blast
  qed
  from passes link disp det show ?thesis by blast
qed

theorem registerReviver_two_passes_witness:
  "asked (issued queued_state (snd (registerReviver markdown_reviver queued_state))) = [2, 2, 2, 2]
   \<and> set (awaitingRevival queued_state)
       - set (snd (registerReviver_passes (\<lambda>k. reviver_canRevive markdown_reviver) (awaitingRevival queued_state)))
     = set (fst (registerReviver_passes (\<lambda>k. reviver_canRevive markdown_reviver) (awaitingRevival queued_state)))
   \<and> awaitingRevival (snd (registerReviver markdown_reviver queued_state)) =
       snd (registerReviver_passes (\<lambda>k. reviver_canRevive markdown_reviver) (awaitingRevival queued_state))"
proof -
  note t = registerReviver_two_passes
             [where r = markdown_reviver and st = queued_state
                and answer = "\<lambda>k. reviver_canRevive markdown_reviver" and q = "awaitingRevival queued_state"]
  from t have "asked (issued queued_state (snd (registerReviver markdown_reviver queued_state))) =
      replicate (length (awaitingRevival queued_state)) (rid markdown_reviver) @
      replicate (length (awaitingRevival queued_state)) (rid markdown_reviver)"
    by blast
  then have a: "asked (issued queued_state (snd (registerReviver markdown_reviver queued_state))) = [2, 2, 2, 2]"
    by (simp add: queued_state_def markdown_reviver_def)
  have same: "\<forall>i j w. (\<lambda>k. reviver_canRevive markdown_reviver) i w = (\<lambda>k. reviver_canRevive markdown_reviver) j w"
    by simp
  from t same have b: "set (awaitingRevival queued_state)
       - set (snd (registerReviver_passes (\<lambda>k. reviver_canRevive markdown_reviver) (awaitingRevival queued_state)))
     = set (fst (registerReviver_passes (\<lambda>k. reviver_canRevive markdown_reviver) (awaitingRevival queued_state)))"
    by blast
  from t have "registerReviver_passes (\<lambda>k. reviver_canRevive markdown_reviver) (awaitingRevival queued_state) =
      (fst (registerReviver_scan (\<lambda>k. reviver_canRevive markdown_reviver) markdown_reviver queued_state),
       awaitingRevival (snd (registerReviver markdown_reviver queued_state)))"
    by blast
  then have c: "awaitingRevival (snd (registerReviver markdown_reviver queued_state)) =
       snd (registerReviver_passes (\<lambda>k. reviver_canRevive markdown_reviver) (awaitingRevival queued_state))"
    by simp
  from a b c show ?thesis by blast
qed

section \<open>At most one revival per input\<close>

lemma revivals_Nil: "revivals [] = []"
  by (simp add: revivals_def)

lemma revivals_Cons:
  "revivals (c # cs) = (case revival_of c of None \<Rightarrow> revivals cs | Some x \<Rightarrow> x # revivals cs)"
  unfolding revivals_def by (simp split: option.splits)

lemmas revivals_simps = revivals_append revivals_Cons revivals_Nil

lemma revivals_asking [simp]: "revivals (map (\<lambda>r. CanReviveCall (rid r) w) rs) = []"
  by (induction rs) (simp_all add: revivals_def)

lemma tracked_createWebview:
  "tracked (snd (createWebview vt t so opts ext st)) = tracked st
   \<and> next_ref (snd (createWebview vt t so opts ext st)) = Suc (next_ref st)"
  by (simp add: createWebview_def createInstance_def openEditor_def record_call_def tracked_def revivals_simps)

lemma tracked_revealWebview:
  "tracked (revealWebview w g pf st) = tracked st \<and> next_ref (revealWebview w g pf st) = next_ref st"
  by (simp add: revealWebview_def openEditor_def record_call_def tracked_def revivals_simps Let_def
           split: option.splits)

lemma tracked_reviveWebview:
  "mset (tracked (track_unresolved (reviveWebview vt i t icon s opts ext st))) = add_mset (next_ref st) (mset (tracked st))
   \<and> next_ref (track_unresolved (reviveWebview vt i t icon s opts ext st)) = Suc (next_ref st)"
  by (simp add: reviveWebview_def createInstance_def track_unresolved_def tracked_def)

lemma tryRevive_loop_revivals:
  "map snd (revivals (calls (snd (tryRevive_loop rs w st)))) =
     map snd (revivals (calls st)) @ (if fst (tryRevive_loop rs w st) = ResolvesFalse then [] else [ref w])"
  by (induction rs arbitrary: st) (simp_all add: Let_def record_call_def revivals_simps)

lemma mset_refs_remove1:
  "w \<in> set ws \<Longrightarrow> add_mset (f w) (mset (map f (remove1 w ws))) = mset (map f ws)"
  by (induction ws) auto

lemma tracked_resolve_input:
  assumes "resolve_input w st = Some st'"
  shows "mset (tracked st') = mset (tracked st) \<and> next_ref st' = next_ref st"
proof -
  have mem: "w \<in> set (unresolved st)"
    using assms by (simp add: resolve_input_def split: if_splits)
  let ?st0 = "st\<lparr>unresolved := remove1 w (unresolved st), next_promise := Suc (next_promise st)\<rparr>"
  let ?res = "tryRevive_loop (revivers st) w ?st0"
  have st': "st' = snd (revive_callback w (st\<lparr>unresolved := remove1 w (unresolved st)\<rparr>))"
    using assms mem by (simp add: resolve_input_def)
  note fr = tryRevive_loop_frame [of "revivers st" w ?st0]
  note rv = tryRevive_loop_revivals [of "revivers st" w ?st0]
  have refs: "add_mset (ref w) (mset (map ref (remove1 w (unresolved st)))) = mset (map ref (unresolved st))"
    using mem by (rule mset_refs_remove1)
  show ?thesis
  proof (cases "fst ?res")
    case (AwaitsThenTrue p)
    then have eq: "st' = (snd ?res)\<lparr>reactions := reactions (snd ?res) @ [(p, ReturnFromCallback (next_promise st))]\<rparr>"
      by (simp add: st' revive_callback_def tryRevive_def Let_def split_beta)
    have "tracked st' = map ref (remove1 w (unresolved st)) @ map (\<lambda>j. ref (fst j)) (resumptions st) @
            map (\<lambda>x. ref (input x)) (awaitingRevival st) @ map snd (revivals (calls st)) @ [ref w]"
      using fr rv AwaitsThenTrue by (simp add: eq tracked_def)
    then show ?thesis using refs fr by (simp add: tracked_def eq)
  next
    case ResolvesFalse
    then have eq: "st' = (snd ?res)\<lparr>resumptions := resumptions (snd ?res) @ [(w, next_promise st)]\<rparr>"
      by (simp add: st' revive_callback_def tryRevive_def Let_def split_beta)
    have "tracked st' = map ref (remove1 w (unresolved st)) @ (map (\<lambda>j. ref (fst j)) (resumptions st) @ [ref w]) @
            map (\<lambda>x. ref (input x)) (awaitingRevival st) @ map snd (revivals (calls st))"
      using fr rv ResolvesFalse by (simp add: eq tracked_def)
    then show ?thesis using refs fr by (simp add: tracked_def eq)
  qed
qed

lemma tracked_callback_resume:
  assumes "resumptions st = (w, c) # rest"
  shows "mset (tracked (callback_resume w c (st\<lparr>resumptions := rest\<rparr>))) = mset (tracked st)
       \<and> next_ref (callback_resume w c (st\<lparr>resumptions := rest\<rparr>)) = next_ref st"
  using assms by (simp add: callback_resume_def tracked_def Let_def)

lemma mset_map_partition:
  "mset (map f (filter (\<lambda>x. \<not> P x) xs)) + mset (map f (filter P xs)) = mset (map f xs)"
  by (induction xs) simp_all

lemma tracked_registerReviver_answered:
  assumes "\<forall>i j w. answer i w = answer j w"
  shows "mset (tracked (snd (registerReviver_answered answer r st))) = mset (tracked st)
       \<and> next_ref (snd (registerReviver_answered answer r st)) = next_ref st"
proof -
  have "map snd (revivals (calls (snd (registerReviver_answered answer r st)))) =
      map snd (revivals (calls st)) @
      map (\<lambda>x. ref (input x)) (filter (\<lambda>x. answer 0 (input x)) (awaitingRevival st))"
    by (simp add: registerReviver_answered_same_state [OF assms] revivals_append
          revivals_dispatches comp_def)
  then show ?thesis
    using mset_map_partition [of "\<lambda>x. ref (input x)" "\<lambda>x. answer 0 (input x)" "awaitingRevival st"]
    by (simp add: tracked_def registerReviver_answered_same_state [OF assms])
qed

lemma tracked_dispose:
  "tracked (dispose h st) = tracked st \<and> next_ref (dispose h st) = next_ref st"
  by (cases h) (simp add: tracked_def)

lemma tracked_canRevive:
  "tracked (snd (canRevive w st)) = tracked st \<and> next_ref (snd (canRevive w st)) = next_ref st"
  by (simp add: canRevive_def canRevive_loop_state tracked_def revivals_append)

lemma tracked_settle:
  "tracked (settle p ok st) = tracked st \<and> next_ref (settle p ok st) = next_ref st"
  by (simp add: settle_def tracked_def)

lemma run_reaction_frame:
  "unresolved (run_reaction b a st) = unresolved st \<and> resumptions (run_reaction b a st) = resumptions st
   \<and> awaitingRevival (run_reaction b a st) = awaitingRevival st \<and> calls (run_reaction b a st) = calls st
   \<and> next_ref (run_reaction b a st) = next_ref st \<and> revivers (run_reaction b a st) = revivers st"
  by (cases a; cases b) simp_all

lemma fold_run_reaction_frame:
  "unresolved (fold (run_reaction b) rs st) = unresolved st \<and> resumptions (fold (run_reaction b) rs st) = resumptions st
   \<and> awaitingRevival (fold (run_reaction b) rs st) = awaitingRevival st \<and> calls (fold (run_reaction b) rs st) = calls st
   \<and> next_ref (fold (run_reaction b) rs st) = next_ref st \<and> revivers (fold (run_reaction b) rs st) = revivers st"
  by (induction rs arbitrary: st) (simp_all add: run_reaction_frame)

lemma tracked_react:
  "tracked (react p st) = tracked st \<and> next_ref (react p st) = next_ref st"
  by (simp add: react_def Let_def tracked_def fold_run_reaction_frame)

lemma tracked_step:
  assumes "step a st = Some st'" and "deterministic a"
  shows "(mset (tracked st') = mset (tracked st) \<and> next_ref st \<le> next_ref st')
       \<or> (mset (tracked st') = add_mset (next_ref st) (mset (tracked st)) \<and> next_ref st' = Suc (next_ref st))"
proof (cases a)
  case (Call_createWebview vt t so opts ext)
  then show ?thesis using assms tracked_createWebview [of vt t so opts ext st] by auto
next
  case (Call_revealWebview w g pf)
  then show ?thesis using assms tracked_revealWebview [of w g pf st] by auto
next
  case (Call_reviveWebview vt i t icon s opts ext)
  then show ?thesis using assms tracked_reviveWebview [of vt i t icon s opts ext st] by auto
next
  case (Invoke_callback w)
  then show ?thesis using assms tracked_resolve_input [of w st st'] by auto
next
  case Resume_callback
  then show ?thesis using assms tracked_callback_resume [of st]
    by (auto split: list.splits)
next
  case (Call_registerReviver answer r)
  then have "\<forall>i j w. answer i w = answer j w" using assms(2) by simp
  from tracked_registerReviver_answered [OF this, of r st]
  show ?thesis using assms(1) Call_registerReviver by auto
next
  case (Call_dispose r)
  then show ?thesis using assms tracked_dispose [of "Disposable r" st] by auto
next
  case (Call_canRevive w)
  then show ?thesis using assms tracked_canRevive [of w st] by auto
next
  case (Settle p ok)
  then show ?thesis using assms tracked_settle [of p ok st] by (auto split: if_splits)
next
  case (React p)
  then show ?thesis using assms tracked_react [of p st] by (auto split: if_splits)
qed

lemma invariant_step:
  assumes "revival_invariant st" and "step a st = Some st'" and "deterministic a"
  shows "revival_invariant st'"
proof -
  from tracked_step [OF assms(2) assms(3)] show ?thesis
  proof
    assume h: "mset (tracked st') = mset (tracked st) \<and> next_ref st \<le> next_ref st'"
    then have m: "mset (tracked st') = mset (tracked st)" by simp
    have d: "distinct (tracked st') = distinct (tracked st)"
      using m by (rule mset_eq_imp_distinct_iff)
    have e: "set (tracked st') = set (tracked st)"
      using m by (rule mset_eq_setD)
    show ?thesis using assms(1) h by (auto simp: revival_invariant_def d e)
  next
    assume h: "mset (tracked st') = add_mset (next_ref st) (mset (tracked st)) \<and> next_ref st' = Suc (next_ref st)"
    then have m: "mset (tracked st') = mset (next_ref st # tracked st)" by simp
    have d: "distinct (tracked st') = distinct (next_ref st # tracked st)"
      using m by (rule mset_eq_imp_distinct_iff)
    have e: "set (tracked st') = set (next_ref st # tracked st)"
      using m by (rule mset_eq_setD)
    have n: "next_ref st' = Suc (next_ref st)" using h by simp
    show ?thesis using assms(1) by (auto simp: revival_invariant_def d e n)
  qed
qed

lemma invariant_run:
  "revival_invariant st \<Longrightarrow> \<forall>a \<in> set acts. deterministic a \<Longrightarrow> run acts st = Some st' \<Longrightarrow>
   revival_invariant st'"
proof (induction acts arbitrary: st)
  case Nil
  then show ?case by simp
next
  case (Cons a acts)
  then obtain st1 where s: "step a st = Some st1" and r: "run acts st1 = Some st'"
    by (auto split: option.splits)
  have "deterministic a" using Cons.prems(2) by simp
  with Cons.prems(1) s have "revival_invariant st1" by (rule invariant_step)
  moreover have "\<forall>a \<in> set acts. deterministic a" using Cons.prems(2) by simp
  ultimately show ?case using r by (rule Cons.IH)
qed

lemma invariant_initial: "revival_invariant (initial g)"
  by (simp add: revival_invariant_def tracked_def initial_def revivals_def)

lemma tryRevive_loop_calls: "prefix (calls st) (calls (snd (tryRevive_loop rs w st)))"
proof (induction rs arbitrary: st)
  case Nil
  then show ?case by simp
next
  case (Cons r rs)
  have "prefix (calls st) (calls (record_call (CanReviveCall (rid r) w) st))"
    by (simp add: record_call_def)
  moreover have "prefix (calls (record_call (CanReviveCall (rid r) w) st))
      (calls (snd (tryRevive_loop rs w (record_call (CanReviveCall (rid r) w) st))))"
    by (rule Cons.IH)
  ultimately have "prefix (calls st) (calls (snd (tryRevive_loop rs w (record_call (CanReviveCall (rid r) w) st))))"
    by (rule prefix_order.trans)
  then show ?case by (simp add: Let_def record_call_def)
qed

lemma calls_resolve_input:
  assumes "resolve_input w st = Some st'"
  shows "prefix (calls st) (calls st')"
proof -
  let ?st0 = "st\<lparr>unresolved := remove1 w (unresolved st), next_promise := Suc (next_promise st)\<rparr>"
  have "calls st' = calls (snd (tryRevive_loop (revivers st) w ?st0))"
    using assms
    by (auto simp: resolve_input_def revive_callback_def tryRevive_def Let_def split_beta
             split: if_splits try_revive_result.splits)
  then show ?thesis using tryRevive_loop_calls [of ?st0 "revivers st" w] by simp
qed

lemma calls_step:
  assumes "step a st = Some st'"
  shows "prefix (calls st) (calls st')"
proof (cases a)
  case (Call_createWebview vt t so opts ext)
  then show ?thesis using assms
    by (auto simp: createWebview_def createInstance_def openEditor_def record_call_def)
next
  case (Call_revealWebview w g pf)
  then show ?thesis using assms
    by (auto simp: revealWebview_def openEditor_def record_call_def Let_def split: option.splits)
next
  case (Call_reviveWebview vt i t icon s opts ext)
  then show ?thesis using assms
    by (auto simp: reviveWebview_def createInstance_def track_unresolved_def)
next
  case (Invoke_callback w)
  then show ?thesis using assms calls_resolve_input by simp
next
  case Resume_callback
  then show ?thesis using assms
    by (auto simp: callback_resume_def Let_def split: list.splits)
next
  case (Call_registerReviver answer r)
  then show ?thesis using assms by (auto simp: registerReviver_answered_state)
next
  case (Call_dispose r)
  then show ?thesis using assms by auto
next
  case (Call_canRevive w)
  then show ?thesis using assms by (auto simp: canRevive_def canRevive_loop_state)
next
  case (Settle p ok)
  then show ?thesis using assms by (auto simp: settle_def split: if_splits)
next
  case (React p)
  then show ?thesis using assms
    by (auto simp: react_def Let_def fold_run_reaction_frame split: if_splits)
qed

lemma calls_run: "run acts st = Some st' \<Longrightarrow> prefix (calls st) (calls st')"
proof (induction acts arbitrary: st)
  case Nil
  then show ?case by simp
next
  case (Cons a acts)
  then obtain st1 where s: "step a st = Some st1" and r: "run acts st1 = Some st'"
    by (auto split: option.splits)
  have "prefix (calls st) (calls st1)" using s by (rule calls_step)
  moreover have "prefix (calls st1) (calls st')" using r by (rule Cons.IH)
  ultimately show ?case by (rule prefix_order.trans)
qed

lemma revivals_prefix: "prefix cs ds \<Longrightarrow> set (revivals cs) \<subseteq> set (revivals ds)"
  by (auto simp: prefix_def revivals_append)

lemma only_revival:
  "distinct (map snd xs) \<Longrightarrow> (a, b) \<in> set xs \<Longrightarrow> filter (\<lambda>x. snd x = b) xs = [(a, b)]"
proof (induction xs)
  case Nil
  then show ?case by simp
next
  case (Cons x xs)
  show ?case
  proof (cases "x = (a, b)")
    case True
    then have "b \<notin> snd ` set xs" using Cons.prems(1) by simp
    then have "filter (\<lambda>x. snd x = b) xs = []" by (auto simp: filter_empty_conv)
    then show ?thesis using True by simp
  next
    case False
    then have mem: "(a, b) \<in> set xs" using Cons.prems(2) by simp
    then have "b \<in> snd ` set xs" by force
    then have "snd x \<noteq> b" using Cons.prems(1) by auto
    moreover have "filter (\<lambda>x. snd x = b) xs = [(a, b)]"
      using Cons.IH Cons.prems(1) mem by simp
    ultimately show ?thesis by simp
  qed
qed

lemma invariant_reachable:
  "run acts (initial g) = Some st \<Longrightarrow> \<forall>a \<in> set acts. deterministic a \<Longrightarrow> revival_invariant st"
  using invariant_initial invariant_run by blast









section \<open>Two revivers that accept the same queued input\<close>






text \<open>
  The same, for the service in its environment: from a state reached through registrations
  of revivers whose check is a function of the input, and whatever happens after the two
  registrations (with such revivers), the one revival of the input in the whole trace is
  \<open>rA\<close>'s.
\<close>

lemma first_registered_reviver_only_ever:
  assumes reach: "run acts (initial g) = Some st"
    and dets: "\<forall>a \<in> set acts. deterministic a"
    and queued: "e \<in> set (awaitingRevival st)"
    and acceptA: "reviver_canRevive rA (input e)"
    and acceptB: "reviver_canRevive rB (input e)"
    and two: "rid rA \<noteq> rid rB"
    and later: "run acts' (snd (registerReviver rB (snd (registerReviver rA st)))) = Some st'"
    and dets': "\<forall>a \<in> set acts'. deterministic a"
  shows "filter (\<lambda>x. snd x = ref (input e)) (revivals (calls st')) = [(rid rA, ref (input e))]
       \<and> length (filter (\<lambda>x. x = (rid rA, ref (input e))) (revivals (calls st'))) = 1
       \<and> (rid rB, ref (input e)) \<notin> set (revivals (calls st'))"
proof -
  let ?st1 = "snd (registerReviver rA st)"
  let ?st2 = "snd (registerReviver rB ?st1)"
  let ?acts = "Call_registerReviver (\<lambda>k. reviver_canRevive rA) rA #
      Call_registerReviver (\<lambda>k. reviver_canRevive rB) rB # acts'"
  have is_run: "run ?acts st = Some st'"
    using later by (simp add: registerReviver_def)
  have all: "\<forall>a \<in> set ?acts. deterministic a"
    using dets' by simp
  have "revival_invariant st" using reach dets by (rule invariant_reachable)
  then have "revival_invariant st'" using all is_run by (rule invariant_run)
  then have dist: "distinct (map snd (revivals (calls st')))"
    by (simp add: revival_invariant_def tracked_def)
  have "(rid rA, ref (input e)) \<in> set (revivals (issued st ?st1))"
    using queued acceptA by (auto simp: registerReviver_revivals)
  moreover have "calls ?st1 = calls st @ issued st ?st1"
    by (simp add: registerReviver_state issued_def)
  ultimately have "(rid rA, ref (input e)) \<in> set (revivals (calls ?st1))"
    by (simp add: revivals_append)
  moreover have "prefix (calls ?st1) (calls st')"
    using calls_run [of "Call_registerReviver (\<lambda>k. reviver_canRevive rB) rB # acts'" ?st1 st'] later
    by (simp add: registerReviver_def)
  ultimately have mem: "(rid rA, ref (input e)) \<in> set (revivals (calls st'))"
    using revivals_prefix by blast
  have one: "filter (\<lambda>x. snd x = ref (input e)) (revivals (calls st')) = [(rid rA, ref (input e))]"
    using dist mem by (rule only_revival)
  have "filter (\<lambda>x. x = (rid rA, ref (input e))) (revivals (calls st')) =
        filter (\<lambda>x. fst x = rid rA) (filter (\<lambda>x. snd x = ref (input e)) (revivals (calls st')))"
    by (auto intro: filter_cong)
  then have count: "length (filter (\<lambda>x. x = (rid rA, ref (input e))) (revivals (calls st'))) = 1"
    by (simp add: one)
  have notB: "(rid rB, ref (input e)) \<notin> set (revivals (calls st'))"
  proof
    assume "(rid rB, ref (input e)) \<in> set (revivals (calls st'))"
    then have "(rid rB, ref (input e)) \<in> set (filter (\<lambda>x. snd x = ref (input e)) (revivals (calls st')))"
      by simp
    then show False using two by (simp add: one)
  qed
  from one count notB show ?thesis by blast
qed

end
